theory Spec2Isabelle
  imports Complex_Main "HOL-Library.Word" "HOL-Library.Log_Nat"
begin

section \<open>JavaScript numbers: finite IEEE-754 binary64 values\<close>

text \<open>
  Every JavaScript number in \<^verbatim>\<open>preprocessForOcr\<close> is a finite binary64 value, which is a
  rational. A real result \<open>x\<close> of an arithmetic operation is rounded to the nearest value
  with a 53-bit significand, ties to the even significand. \<open>ilog2 x\<close> is the binary
  exponent of a positive \<open>x\<close>, found from the bit length of its integer part (or of the
  integer part of its reciprocal). All values of this program lie far inside the normal
  range (between \<open>2 ^ -60\<close> and \<open>2 ^ 90\<close>), so the exponent is left unbounded.
\<close>

definition ilog2 :: "rat \<Rightarrow> int" where
  "ilog2 x = (if 1 \<le> x then int (floorlog 2 (nat \<lfloor>x\<rfloor>)) - 1
              else - int (floorlog 2 (nat (\<lceil>1 / x\<rceil> - 1))))"

definition round_even :: "rat \<Rightarrow> int" where
  "round_even y = (let n = \<lfloor>y\<rfloor>; r = y - of_int n in
     if r < 1 / 2 then n else if 1 / 2 < r then n + 1 else if even n then n else n + 1)"

definition fl :: "rat \<Rightarrow> rat" where
  "fl x = (if x = 0 then 0 else
     let u = 2 powi (ilog2 \<bar>x\<bar> - 52) in of_int (round_even (x / u)) * u)"

definition fadd :: "rat \<Rightarrow> rat \<Rightarrow> rat" where
  "fadd x y = fl (x + y)"

definition fsub :: "rat \<Rightarrow> rat \<Rightarrow> rat" where
  "fsub x y = fl (x - y)"

definition fmul :: "rat \<Rightarrow> rat \<Rightarrow> rat" where
  "fmul x y = fl (x * y)"

text \<open>Division; every call site of the model has a divisor that is not zero.\<close>

definition fdiv :: "rat \<Rightarrow> rat \<Rightarrow> rat" where
  "fdiv x y = fl (x / y)"

text \<open>\<^verbatim>\<open>x ** 2\<close>, computed as the correctly rounded product \<open>x * x\<close>.\<close>

definition fsq :: "rat \<Rightarrow> rat" where
  "fsq x = fl (x * x)"

text \<open>\<^verbatim>\<open>Math.round\<close>: the nearest integer, a tie going towards plus infinity.\<close>

definition js_round :: "rat \<Rightarrow> int" where
  "js_round x = \<lfloor>x + 1 / 2\<rfloor>"

definition js_ceil :: "rat \<Rightarrow> int" where
  "js_ceil x = \<lceil>x\<rceil>"

section \<open>Pixel buffer and histogram\<close>

text \<open>
  \<^verbatim>\<open>imageData.data\<close> is a \<^verbatim>\<open>Uint8ClampedArray\<close> of length \<open>4 * width * height\<close>: one
  R, G, B, A quadruple of bytes per pixel. The loops of the source step through it four
  bytes at a time (\<^verbatim>\<open>i += 4\<close>), so the buffer is a list of pixels.
\<close>

type_synonym byte = "8 word"

datatype pixel = RGBA (red: byte) (green: byte) (blue: byte) (alpha: byte)

text \<open>Storing a number into a \<^verbatim>\<open>Uint8ClampedArray\<close> clamps it to \<open>0..255\<close>.\<close>

definition to_uint8_clamped :: "int \<Rightarrow> byte" where
  "to_uint8_clamped v = word_of_int (max 0 (min 255 v))"

text \<open>
  \<^verbatim>\<open>hist\<close> is a \<^verbatim>\<open>Uint32Array(256)\<close>: \<^verbatim>\<open>hist[g]++\<close> wraps at \<open>2 ^ 32\<close>, and a
  store at an index outside the array is ignored.
\<close>

type_synonym histogram = "32 word list"

definition hist_incr :: "histogram \<Rightarrow> int \<Rightarrow> histogram" where
  "hist_incr hist g =
     (if 0 \<le> g \<and> nat g < length hist then hist[nat g := hist ! nat g + 1] else hist)"

section \<open>Scaler (lines 36-44)\<close>

text \<open>
  \<^verbatim>\<open>scale = 1; if (maxDim < 2000) scale = Math.ceil(2000 / maxDim)\<close>. For \<open>maxDim = 0\<close>
  the quotient is \<^verbatim>\<open>Infinity\<close>, which is the value \<open>None\<close>.
\<close>

definition scale_factor :: "nat \<Rightarrow> nat \<Rightarrow> nat option" where
  "scale_factor w h =
     (let maxDim = max w h in
      if maxDim < 2000
      then (if maxDim = 0 then None else Some (nat (js_ceil (fdiv 2000 (of_nat maxDim)))))
      else Some 1)"

text \<open>
  \<^verbatim>\<open>canvas.width = img.width * scale\<close>: the product with \<^verbatim>\<open>Infinity\<close> is \<^verbatim>\<open>NaN\<close> or
  \<^verbatim>\<open>Infinity\<close>, which a canvas dimension converts to \<open>0\<close>.
\<close>

definition canvas_dim :: "nat \<Rightarrow> nat option \<Rightarrow> nat" where
  "canvas_dim d scale = (case scale of None \<Rightarrow> 0 | Some s \<Rightarrow> d * s)"

section \<open>Pass 1: grayscale and histogram (lines 55-63)\<close>

definition luma :: "byte \<Rightarrow> byte \<Rightarrow> byte \<Rightarrow> int" where
  "luma r g b =
     js_round (fadd (fadd (fmul (fl (299 / 1000)) (of_nat (unat r)))
                          (fmul (fl (587 / 1000)) (of_nat (unat g))))
                    (fmul (fl (114 / 1000)) (of_nat (unat b))))"

fun grayscale_pass :: "pixel list \<Rightarrow> histogram \<Rightarrow> pixel list \<times> histogram" where
  "grayscale_pass [] hist = ([], hist)"
| "grayscale_pass (RGBA r g b a # ps) hist =
     (let v = luma r g b;
          (ps', hist') = grayscale_pass ps (hist_incr hist v)
      in (RGBA (to_uint8_clamped v) (to_uint8_clamped v) (to_uint8_clamped v) a # ps', hist'))"

section \<open>Otsu's method (lines 65-84)\<close>

text \<open>
  The counts and sums of the loops are integers below \<open>2 ^ 53\<close> (256 bins below
  \<open>2 ^ 32\<close>, weights below 256), where binary64 arithmetic is exact; they are natural
  numbers and integers here (\<open>sumAll\<close> is the variable \<^verbatim>\<open>sum\<close> of the source).
  The two means, their difference, its square and the two products are rounded.
\<close>

fun weighted_sum :: "histogram \<Rightarrow> nat \<Rightarrow> nat" where
  "weighted_sum hist 0 = 0"
| "weighted_sum hist (Suc t) = weighted_sum hist t + t * unat (hist ! t)"

definition variance :: "nat \<Rightarrow> int \<Rightarrow> nat \<Rightarrow> nat \<Rightarrow> rat" where
  "variance wB wF sumB sumAll =
     (let mB = fdiv (of_nat sumB) (of_nat wB);
          mF = fdiv (of_int (int sumAll - int sumB)) (of_int wF)
      in fmul (fmul (of_nat wB) (of_int wF)) (fsq (fsub mB mF)))"

function otsu_loop ::
  "histogram \<Rightarrow> nat \<Rightarrow> nat \<Rightarrow> nat \<Rightarrow> nat \<Rightarrow> nat \<Rightarrow> rat \<Rightarrow> nat \<Rightarrow> nat" where
  "otsu_loop hist totalPixels sumAll t sumB wB maxVar threshold =
     (if t < 256 then
        (let wB' = wB + unat (hist ! t) in
         if wB' = 0 then otsu_loop hist totalPixels sumAll (t + 1) sumB wB' maxVar threshold
         else
           (let wF = int totalPixels - int wB' in
            if wF = 0 then threshold
            else
              (let sumB' = sumB + t * unat (hist ! t);
                   v = variance wB' wF sumB' sumAll
               in if maxVar < v
                  then otsu_loop hist totalPixels sumAll (t + 1) sumB' wB' v t
                  else otsu_loop hist totalPixels sumAll (t + 1) sumB' wB' maxVar threshold)))
      else threshold)"
  by pat_completeness auto
termination
  by (relation "measure (\<lambda>(hist, totalPixels, sumAll, t, sumB, wB, maxVar, threshold). 256 - t)")
     auto

definition otsu_threshold :: "histogram \<Rightarrow> nat \<Rightarrow> nat" where
  "otsu_threshold hist totalPixels =
     otsu_loop hist totalPixels (weighted_sum hist 256) 0 0 0 0 128"

section \<open>Pass 2: binarization (lines 86-93)\<close>

fun binarize_pass :: "nat \<Rightarrow> pixel list \<Rightarrow> nat \<Rightarrow> pixel list \<times> nat" where
  "binarize_pass threshold [] whiteCount = ([], whiteCount)"
| "binarize_pass threshold (RGBA r g b a # ps) whiteCount =
     (let bw = (if threshold < unat r then 255 else 0 :: int);
          (ps', n) = binarize_pass threshold ps (if bw = 255 then whiteCount + 1 else whiteCount)
      in (RGBA (to_uint8_clamped bw) (to_uint8_clamped bw) (to_uint8_clamped bw) a # ps', n))"

section \<open>Pass 3: polarity correction (lines 95-103)\<close>

fun invert_pass :: "pixel list \<Rightarrow> pixel list" where
  "invert_pass [] = []"
| "invert_pass (RGBA r g b a # ps) =
     (let v = to_uint8_clamped (255 - int (unat r)) in RGBA v v v a # invert_pass ps)"

definition polarity_pass :: "pixel list \<Rightarrow> nat \<Rightarrow> nat \<Rightarrow> pixel list" where
  "polarity_pass ps totalPixels whiteCount =
     (let blackCount = int totalPixels - int whiteCount in
      if int whiteCount < blackCount then invert_pass ps else ps)"

section \<open>The three passes on one buffer (lines 53-103)\<close>

text \<open>
  The result keeps the final buffer together with the local variables \<^verbatim>\<open>hist\<close>,
  \<^verbatim>\<open>threshold\<close>, \<^verbatim>\<open>whiteCount\<close> and \<^verbatim>\<open>blackCount\<close> of the run.
\<close>

record processed =
  res_data :: "pixel list"
  res_hist :: histogram
  res_threshold :: nat
  res_whiteCount :: nat
  res_blackCount :: int
  res_inverted :: bool

definition process_pixels :: "pixel list \<Rightarrow> processed" where
  "process_pixels data =
     (let (gray, h) = grayscale_pass data (replicate 256 0);
          totalPixels = length data;
          thr = otsu_threshold h totalPixels;
          (bin, white) = binarize_pass thr gray 0;
          black = int totalPixels - int white
      in \<lparr>res_data = polarity_pass bin totalPixels white, res_hist = h, res_threshold = thr,
          res_whiteCount = white, res_blackCount = black, res_inverted = (int white < black)\<rparr>)"

section \<open>Counting black and white pixels of a buffer\<close>

definition is_white :: "pixel \<Rightarrow> bool" where
  "is_white p = (red p = 255 \<and> green p = 255 \<and> blue p = 255)"

definition is_black :: "pixel \<Rightarrow> bool" where
  "is_black p = (red p = 0 \<and> green p = 0 \<and> blue p = 0)"

definition count_white :: "pixel list \<Rightarrow> nat" where
  "count_white ps = length (filter is_white ps)"

definition count_black :: "pixel list \<Rightarrow> nat" where
  "count_black ps = length (filter is_black ps)"

section \<open>The passes as the specification words them, pixel by pixel\<close>

text \<open>
  These follow the wording of the specification; the theorems below compare them with
  the loops of the source.
\<close>

definition gray_of :: "pixel \<Rightarrow> int" where
  "gray_of p = luma (red p) (green p) (blue p)"

definition spec_gray_pixel :: "pixel \<Rightarrow> pixel" where
  "spec_gray_pixel p =
     RGBA (word_of_int (gray_of p)) (word_of_int (gray_of p)) (word_of_int (gray_of p)) (alpha p)"

text \<open>
  The gray value as the specification writes it, in exact arithmetic:
  \<open>round (0.299 * R + 0.587 * G + 0.114 * B)\<close>, a tie rounded up.
\<close>

definition spec_luma :: "byte \<Rightarrow> byte \<Rightarrow> byte \<Rightarrow> int" where
  "spec_luma r g b =
     \<lfloor>(299 / 1000 * of_nat (unat r) + 587 / 1000 * of_nat (unat g)
        + 114 / 1000 * of_nat (unat b) :: rat) + 1 / 2\<rfloor>"

definition spec_bw_pixel :: "nat \<Rightarrow> pixel \<Rightarrow> pixel" where
  "spec_bw_pixel thr p =
     (if thr < unat (red p) then RGBA 255 255 255 (alpha p) else RGBA 0 0 0 (alpha p))"

definition spec_invert_pixel :: "pixel \<Rightarrow> pixel" where
  "spec_invert_pixel p = RGBA (255 - red p) (255 - green p) (255 - blue p) (alpha p)"

section \<open>Candidates of the Otsu scan, stated from the histogram\<close>

text \<open>
  \<open>cum_weight hist t\<close> is the number of pixels in the bins below \<open>t\<close>, so
  \<open>cum_weight hist (Suc t)\<close> is the value of \<^verbatim>\<open>wB\<close> at candidate \<open>t\<close>, and
  \<open>weighted_sum hist (Suc t)\<close> the value of \<^verbatim>\<open>sumB\<close>. The scan stops at the first
  candidate with a background class that is not empty and a foreground class that is
  empty; \<open>scanned\<close> holds of the candidates whose variance the loop compares.
\<close>

fun cum_weight :: "histogram \<Rightarrow> nat \<Rightarrow> nat" where
  "cum_weight hist 0 = 0"
| "cum_weight hist (Suc t) = cum_weight hist t + unat (hist ! t)"

definition stops_at :: "histogram \<Rightarrow> nat \<Rightarrow> nat \<Rightarrow> bool" where
  "stops_at hist totalPixels t =
     (0 < cum_weight hist (Suc t) \<and> int totalPixels - int (cum_weight hist (Suc t)) = 0)"

definition scanned :: "histogram \<Rightarrow> nat \<Rightarrow> nat \<Rightarrow> bool" where
  "scanned hist totalPixels t =
     (t < 256 \<and> 0 < cum_weight hist (Suc t) \<and>
      list_all (\<lambda>k. \<not> stops_at hist totalPixels k) [0..<Suc t])"

definition class_variance :: "histogram \<Rightarrow> nat \<Rightarrow> nat \<Rightarrow> rat" where
  "class_variance hist totalPixels t =
     variance (cum_weight hist (Suc t)) (int totalPixels - int (cum_weight hist (Suc t)))
       (weighted_sum hist (Suc t)) (weighted_sum hist 256)"

text \<open>
  The between-class variance as the specification writes it, in exact arithmetic:
  \<open>wB * wF * (meanB - meanF)\<^sup>2\<close> from the same cumulative sums.
\<close>

definition spec_variance :: "histogram \<Rightarrow> nat \<Rightarrow> nat \<Rightarrow> rat" where
  "spec_variance hist totalPixels t =
     (let wB = rat_of_nat (cum_weight hist (Suc t));
          wF = rat_of_int (int totalPixels - int (cum_weight hist (Suc t)));
          meanB = rat_of_nat (weighted_sum hist (Suc t)) / wB;
          meanF = rat_of_int (int (weighted_sum hist 256) - int (weighted_sum hist (Suc t))) / wF
      in wB * wF * (meanB - meanF) ^ 2)"

text \<open>
  The histogram of a 2000 by 1 image with 500 pixels of gray value 0, 1000 of gray value
  125 and 500 of gray value 250: the exact variances of the candidates 0 and 125 are equal.
\<close>

definition tie_hist :: histogram where
  "tie_hist = (replicate 256 0) [0 := 500, 125 := 1000, 250 := 500]"

section \<open>The orchestrator (lines 25-127)\<close>

text \<open>
  The browser is a parameter: \<open>decode\<close> is the load of the \<^verbatim>\<open>Image\<close> (\<open>None\<close> when
  \<^verbatim>\<open>onerror\<close> fires), \<open>context2d\<close> tells whether \<^verbatim>\<open>getContext('2d')\<close> returns a
  context, \<open>getImageData\<close> is \<^verbatim>\<open>drawImage\<close> followed by \<^verbatim>\<open>getImageData\<close> on a canvas
  of the given size (\<open>None\<close> when one of them throws), and \<open>toBlob\<close> is
  \<^verbatim>\<open>putImageData\<close> followed by \<^verbatim>\<open>canvas.toBlob\<close>, which throws, calls back with
  \<^verbatim>\<open>null\<close>, or calls back with the PNG blob.

  The promise is resolved by \<^verbatim>\<open>onerror\<close>, by the \<^verbatim>\<open>catch\<close> block, or by the callback of
  \<^verbatim>\<open>toBlob\<close>. That callback runs after the \<^verbatim>\<open>try\<close> block has been left: with a
  \<^verbatim>\<open>null\<close> blob, \<^verbatim>\<open>blob.arrayBuffer()\<close> throws there and \<^verbatim>\<open>resolve\<close> is never called.
\<close>

type_synonym bytes = "byte list"

record image =
  img_width :: nat
  img_height :: nat
  img_bitmap :: "pixel list"

datatype blob_result = ToBlobThrows | BlobNull | Blob bytes

record browser =
  decode :: "bytes \<Rightarrow> image option"
  context2d :: bool
  getImageData :: "image \<Rightarrow> nat \<Rightarrow> nat \<Rightarrow> pixel list option"
  toBlob :: "nat \<Rightarrow> nat \<Rightarrow> pixel list \<Rightarrow> blob_result"

datatype outcome = Resolved bytes | Rejected | NeverSettled

definition preprocessForOcr :: "browser \<Rightarrow> bytes \<Rightarrow> outcome" where
  "preprocessForOcr env imageBytes =
     (case decode env imageBytes of
        None \<Rightarrow> Resolved imageBytes
      | Some img \<Rightarrow>
          if \<not> context2d env then Resolved imageBytes
          else
            (let scale = scale_factor (img_width img) (img_height img);
                 cw = canvas_dim (img_width img) scale;
                 ch = canvas_dim (img_height img) scale
             in case getImageData env img cw ch of
                  None \<Rightarrow> Resolved imageBytes
                | Some data \<Rightarrow>
                    (case toBlob env cw ch (res_data (process_pixels data)) of
                       ToBlobThrows \<Rightarrow> Resolved imageBytes
                     | BlobNull \<Rightarrow> NeverSettled
                     | Blob png \<Rightarrow> Resolved png)))"

declare otsu_loop.simps [simp del]

section \<open>Rounding: exponent, monotonicity, exactness, error\<close>

lemma ilog2_bounds:
  assumes "0 < x"
  shows "2 powi (ilog2 x) \<le> x \<and> x < 2 powi (ilog2 x + 1)"
proof (cases "1 \<le> x")
  case True
  define n where "n = nat \<lfloor>x\<rfloor>"
  have n1: "1 \<le> n" using True by (simp add: n_def le_nat_iff)
  define k where "k = floorlog 2 n"
  have b: "2 ^ (k - 1) \<le> n" "n < 2 ^ k"
    using floorlog_bounds [where b=2 and x=n] n1 by (simp_all add: k_def)
  have k1: "1 \<le> k" using b n1 by (cases k) auto
  have e: "ilog2 x = int k - 1" using True by (simp add: ilog2_def k_def n_def)
  have fx: "0 \<le> \<lfloor>x\<rfloor>" using True by simp
  have nf: "rat_of_nat n = of_int \<lfloor>x\<rfloor>" using fx by (simp add: n_def)
  have nx: "rat_of_nat n \<le> x" "x < rat_of_nat n + 1"
    using floor_correct [of x] by (simp_all add: nf)
  have p1: "(2::rat) powi (int k - 1) = 2 ^ (k - 1)"
    using k1 by (simp add: power_int_def nat_diff_distrib')
  have p2: "(2::rat) powi (int k - 1 + 1) = 2 ^ k"
    by (simp add: power_int_def)
  have l: "(2::rat) ^ (k - 1) \<le> x"
  proof -
    have "(2::rat) ^ (k - 1) = rat_of_nat (2 ^ (k - 1))" by simp
    also have "\<dots> \<le> rat_of_nat n" using b(1) by (simp only: of_nat_le_iff)
    also have "\<dots> \<le> x" by (rule nx(1))
    finally show ?thesis .
  qed
  have u: "x < (2::rat) ^ k"
  proof -
    have "n + 1 \<le> 2 ^ k" using b(2) by simp
    then have "rat_of_nat (n + 1) \<le> rat_of_nat (2 ^ k)" by (simp only: of_nat_le_iff)
    then have "rat_of_nat n + 1 \<le> 2 ^ k" by simp
    then show ?thesis using nx(2) by linarith
  qed
  show ?thesis unfolding e p1 p2 using l u by simp
next
  case False
  then have x1: "x < 1" by simp
  define y where "y = \<lceil>1 / x\<rceil>"
  have inv: "1 < 1 / x" using assms x1 by simp
  have y2: "2 \<le> y"
  proof -
    have "1 < y" unfolding y_def using inv by (simp add: less_ceiling_iff)
    then show ?thesis by simp
  qed
  define m where "m = nat (y - 1)"
  have m1: "1 \<le> m" using y2 by (simp add: m_def)
  define k where "k = floorlog 2 m"
  have b: "2 ^ (k - 1) \<le> m" "m < 2 ^ k"
    using floorlog_bounds [where b=2 and x=m] m1 by (simp_all add: k_def)
  have k1: "1 \<le> k" using b m1 by (cases k) auto
  have e: "ilog2 x = - int k" using False by (simp add: ilog2_def k_def m_def y_def)
  have yb: "rat_of_int y - 1 < 1 / x" "1 / x \<le> rat_of_int y"
    using ceiling_correct [of "1 / x"] by (simp_all add: y_def)
  have my: "rat_of_nat m = rat_of_int y - 1" using y2 by (simp add: m_def)
  have l: "(2::rat) ^ (k - 1) < 1 / x"
  proof -
    have "(2::rat) ^ (k - 1) = rat_of_nat (2 ^ (k - 1))" by simp
    also have "\<dots> \<le> rat_of_nat m" using b(1) by (simp only: of_nat_le_iff)
    also have "\<dots> < 1 / x" using yb(1) my by simp
    finally show ?thesis .
  qed
  have u: "1 / x \<le> (2::rat) ^ k"
  proof -
    have "m + 1 \<le> 2 ^ k" using b(2) by simp
    then have "rat_of_nat (m + 1) \<le> rat_of_nat (2 ^ k)" by (simp only: of_nat_le_iff)
    then have "rat_of_nat m + 1 \<le> 2 ^ k" by simp
    then show ?thesis using yb(2) my by linarith
  qed
  have l': "x < 1 / 2 ^ (k - 1)" using l assms by (simp add: field_simps)
  have u': "1 / 2 ^ k \<le> x" using u assms by (simp add: field_simps)
  have p1: "(2::rat) powi (- int k) = 1 / 2 ^ k"
    by (simp add: power_int_def field_simps)
  have p2: "(2::rat) powi (- int k + 1) = 1 / 2 ^ (k - 1)"
    using k1 by (simp add: power_int_def nat_diff_distrib' field_simps)
  show ?thesis unfolding e p1 p2 using l' u' by simp
qed


lemma round_even_of_int: "round_even (of_int n) = n"
  by (simp add: round_even_def)

lemma round_even_range: "\<lfloor>y\<rfloor> \<le> round_even y \<and> round_even y \<le> \<lfloor>y\<rfloor> + 1"
  by (simp add: round_even_def Let_def)

lemma round_even_error: "\<bar>of_int (round_even y) - y\<bar> \<le> 1 / 2"
proof -
  have "of_int \<lfloor>y\<rfloor> \<le> y \<and> y < of_int \<lfloor>y\<rfloor> + 1"
    using floor_correct [of y] by simp
  then show ?thesis
    by (auto simp add: round_even_def Let_def abs_le_iff)
qed

lemma round_even_mono:
  assumes "x \<le> y"
  shows "round_even x \<le> round_even y"
proof (cases "\<lfloor>x\<rfloor> = \<lfloor>y\<rfloor>")
  case True
  then show ?thesis using assms
    by (auto simp add: round_even_def Let_def)
next
  case False
  then have "\<lfloor>x\<rfloor> + 1 \<le> \<lfloor>y\<rfloor>" using floor_mono [OF assms] by simp
  then show ?thesis
    using round_even_range [of x] round_even_range [of y] by linarith
qed

lemma powi_pos: "0 < (2::rat) powi e"
  by simp

lemma fl_scaled:
  assumes "0 < x"
  shows "2 ^ 52 \<le> x / 2 powi (ilog2 x - 52) \<and> x / 2 powi (ilog2 x - 52) < 2 ^ 53"
proof -
  have b: "2 powi (ilog2 x) \<le> x" "x < 2 powi (ilog2 x + 1)"
    using ilog2_bounds [OF assms] by simp_all
  have s1: "(2::rat) powi (ilog2 x) = 2 ^ 52 * 2 powi (ilog2 x - 52)"
    by (simp add: power_int_diff)
  have s2: "(2::rat) powi (ilog2 x + 1) = 2 ^ 53 * 2 powi (ilog2 x - 52)"
    by (simp add: power_int_diff power_int_add)
  show ?thesis using b unfolding s1 s2
    by (simp add: pos_le_divide_eq pos_divide_less_eq)
qed

lemma fl_pos_bounds:
  assumes "0 < x"
  shows "2 powi (ilog2 x) \<le> fl x \<and> fl x \<le> 2 powi (ilog2 x + 1)"
proof -
  define u :: rat where "u = 2 powi (ilog2 x - 52)"
  have u0: "0 < u" by (simp add: u_def)
  have sc: "2 ^ 52 \<le> x / u" "x / u < 2 ^ 53"
    using fl_scaled [OF assms] by (simp_all add: u_def)
  have "round_even (of_int (2 ^ 52)) \<le> round_even (x / u)"
    by (rule round_even_mono) (use sc(1) in simp)
  then have lo: "2 ^ 52 \<le> round_even (x / u)" by (simp only: round_even_of_int)
  have "round_even (x / u) \<le> round_even (of_int (2 ^ 53))"
    by (rule round_even_mono) (use sc(2) in simp)
  then have hi: "round_even (x / u) \<le> 2 ^ 53" by (simp only: round_even_of_int)
  have f: "fl x = of_int (round_even (x / u)) * u"
    using assms by (simp add: fl_def u_def Let_def)
  have s1: "(2::rat) powi (ilog2 x) = 2 ^ 52 * u"
    by (simp add: u_def power_int_diff)
  have s2: "(2::rat) powi (ilog2 x + 1) = 2 ^ 53 * u"
    by (simp add: u_def power_int_diff power_int_add)
  have "rat_of_int (2 ^ 52) \<le> of_int (round_even (x / u))" using lo by (simp only: of_int_le_iff)
  then have l: "2 ^ 52 * u \<le> of_int (round_even (x / u)) * u"
    using u0 by simp
  have "rat_of_int (round_even (x / u)) \<le> of_int (2 ^ 53)" using hi by (simp only: of_int_le_iff)
  then have h: "of_int (round_even (x / u)) * u \<le> 2 ^ 53 * u"
    using u0 by simp
  show ?thesis unfolding f s1 s2 using l h by simp
qed

lemma fl_zero: "fl 0 = 0"
  by (simp add: fl_def)

lemma fl_pos: "0 < x \<Longrightarrow> 0 < fl x"
  using fl_pos_bounds [of x] powi_pos [of "ilog2 x"] by linarith

lemma fl_nonneg: "0 \<le> x \<Longrightarrow> 0 \<le> fl x"
  using fl_pos [of x] fl_zero by (cases "x = 0") (simp_all add: less_le)

lemma ilog2_mono:
  assumes "0 < x" "x \<le> y"
  shows "ilog2 x \<le> ilog2 y"
proof (rule ccontr)
  assume "\<not> ilog2 x \<le> ilog2 y"
  then have "ilog2 y + 1 \<le> ilog2 x" by simp
  then have "(2::rat) powi (ilog2 y + 1) \<le> 2 powi (ilog2 x)"
    by (intro power_int_increasing) simp_all
  moreover have "2 powi (ilog2 x) \<le> x" using ilog2_bounds [OF assms(1)] by simp
  moreover have "y < 2 powi (ilog2 y + 1)" using ilog2_bounds [of y] assms by simp
  ultimately show False using assms(2) by linarith
qed

lemma fl_mono_pos:
  assumes "0 < x" "x \<le> y"
  shows "fl x \<le> fl y"
proof (cases "ilog2 x = ilog2 y")
  case True
  define u :: rat where "u = 2 powi (ilog2 x - 52)"
  have u0: "0 < u" by (simp add: u_def)
  have y0: "0 < y" using assms by simp
  have fx: "fl x = of_int (round_even (x / u)) * u" using assms by (simp add: fl_def u_def Let_def)
  have fy: "fl y = of_int (round_even (y / u)) * u" using y0 True by (simp add: fl_def u_def Let_def)
  have "x / u \<le> y / u" using assms(2) u0 by (simp add: divide_right_mono)
  then have "round_even (x / u) \<le> round_even (y / u)" by (rule round_even_mono)
  then have "rat_of_int (round_even (x / u)) \<le> of_int (round_even (y / u))"
    by (simp only: of_int_le_iff)
  then show ?thesis unfolding fx fy using u0 by simp
next
  case False
  then have "ilog2 x + 1 \<le> ilog2 y" using ilog2_mono [OF assms] by simp
  then have "(2::rat) powi (ilog2 x + 1) \<le> 2 powi (ilog2 y)"
    by (intro power_int_increasing) simp_all
  moreover have "fl x \<le> 2 powi (ilog2 x + 1)" using fl_pos_bounds [OF assms(1)] by simp
  moreover have "2 powi (ilog2 y) \<le> fl y" using fl_pos_bounds [of y] assms by simp
  ultimately show ?thesis by linarith
qed

lemma fl_mono:
  assumes "0 \<le> x" "x \<le> y"
  shows "fl x \<le> fl y"
proof (cases "x = 0")
  case True
  then show ?thesis using assms fl_nonneg [of y] by (simp add: fl_zero)
next
  case False
  then show ?thesis using assms fl_mono_pos [of x y] by simp
qed

lemma fl_pos_eq:
  "0 < x \<Longrightarrow> fl x = of_int (round_even (x / 2 powi (ilog2 x - 52))) * 2 powi (ilog2 x - 52)"
  by (simp add: fl_def Let_def)

lemma fl_of_nat:
  assumes "n < 2 ^ 53"
  shows "fl (of_nat n) = of_nat n"
proof (cases "n = 0")
  case True
  then show ?thesis by (simp add: fl_zero)
next
  case False
  define x :: rat where "x = of_nat n"
  have x0: "0 < x" using False by (simp add: x_def)
  define e where "e = ilog2 x"
  have "rat_of_nat n < rat_of_nat (2 ^ 53)" using assms by (simp only: of_nat_less_iff)
  then have xu: "x < 2 powi 53" by (simp add: x_def)
  have "2 powi e \<le> x" using ilog2_bounds [OF x0] by (simp add: e_def)
  then have lt: "(2::rat) powi e < 2 powi 53" using xu by linarith
  have e52: "e \<le> 52"
  proof (rule ccontr)
    assume "\<not> e \<le> 52"
    then have "53 \<le> e" by simp
    then have "(2::rat) powi 53 \<le> 2 powi e" by (intro power_int_increasing) simp_all
    then show False using lt by linarith
  qed
  define k where "k = nat (52 - e)"
  have u: "(2::rat) powi (e - 52) = 1 / 2 ^ k"
  proof -
    have h: "e - 52 = - int k" using e52 by (simp add: k_def)
    show ?thesis
      by (simp only: h power_int_minus power_int_of_nat) (simp add: inverse_eq_divide)
  qed
  have q: "x / (1 / 2 ^ k) = rat_of_int (int n * 2 ^ k)" by (simp add: x_def)
  have "fl x = of_int (round_even (x / (1 / 2 ^ k))) * (1 / 2 ^ k)"
    using fl_pos_eq [OF x0] by (simp only: e_def [symmetric] u)
  also have "\<dots> = rat_of_int (int n * 2 ^ k) * (1 / 2 ^ k)"
    by (simp only: q round_even_of_int)
  also have "\<dots> = x" by (simp add: x_def)
  finally show ?thesis by (simp add: x_def)
qed

lemma fl_neg:
  assumes "x < 0"
  shows "fl x < 0"
proof -
  define u :: rat where "u = 2 powi (ilog2 \<bar>x\<bar> - 52)"
  have u0: "0 < u" by (simp add: u_def)
  have ax: "0 < \<bar>x\<bar>" using assms by simp
  have "2 ^ 52 \<le> \<bar>x\<bar> / u" using fl_scaled [OF ax] by (simp add: u_def)
  then have "x / u \<le> - (2 ^ 52)" using assms by (simp add: abs_if)
  then have "x / u \<le> rat_of_int (- (2 ^ 52))" by simp
  then have "round_even (x / u) \<le> round_even (rat_of_int (- (2 ^ 52)))"
    by (rule round_even_mono)
  then have "round_even (x / u) < 0" by (simp only: round_even_of_int) simp
  then have "rat_of_int (round_even (x / u)) < 0" by (simp only: of_int_less_0_iff)
  then have "rat_of_int (round_even (x / u)) * u < 0" using u0 by (simp add: mult_less_0_iff)
  moreover have "fl x = of_int (round_even (x / u)) * u"
    using assms by (simp add: fl_def Let_def u_def)
  ultimately show ?thesis by simp
qed

lemma fl_error:
  assumes "0 < x"
  shows "\<bar>fl x - x\<bar> \<le> 2 powi (ilog2 x - 52) / 2"
proof -
  define u :: rat where "u = 2 powi (ilog2 x - 52)"
  have u0: "0 < u" by (simp add: u_def)
  have f: "fl x = of_int (round_even (x / u)) * u"
    using assms by (simp add: fl_def Let_def u_def)
  have "fl x - x = (of_int (round_even (x / u)) - x / u) * u"
    using u0 by (simp add: f field_simps)
  then have "\<bar>fl x - x\<bar> = \<bar>of_int (round_even (x / u)) - x / u\<bar> * u"
    using u0 by (simp add: abs_mult)
  also have "\<dots> \<le> (1 / 2) * u"
    using round_even_error [of "x / u"] u0 by (intro mult_right_mono) simp_all
  finally show ?thesis by (simp add: u_def)
qed

lemma js_round_mono: "x \<le> y \<Longrightarrow> js_round x \<le> js_round y"
  by (simp add: js_round_def floor_mono)

lemma luma_255: "luma 255 255 255 = 255"
  by code_simp

lemma luma_0: "luma 0 0 0 = 0"
  by code_simp

lemma fl_consts_pos: "0 < fl (299 / 1000)" "0 < fl (587 / 1000)" "0 < fl (114 / 1000)"
  by (simp_all add: fl_pos)

lemma fmul_mono:
  assumes "0 \<le> c" "0 \<le> x" "x \<le> y"
  shows "0 \<le> fmul c x \<and> fmul c x \<le> fmul c y"
  unfolding fmul_def using assms
  by (auto intro!: fl_nonneg fl_mono mult_left_mono)

lemma fadd_mono:
  assumes "0 \<le> a" "a \<le> a'" "0 \<le> b" "b \<le> b'"
  shows "0 \<le> fadd a b \<and> fadd a b \<le> fadd a' b'"
  unfolding fadd_def using assms
  by (auto intro!: fl_nonneg fl_mono)

lemma unat_byte_le: "unat (b :: byte) \<le> 255"
  using unsigned_less [of b, where ?'a = nat] by simp

lemma rat_of_byte_bounds:
  "(0::rat) \<le> of_nat (unat (b :: byte))" "rat_of_nat (unat (b :: byte)) \<le> 255"
proof -
  show "(0::rat) \<le> of_nat (unat b)" by (rule of_nat_0_le_iff)
  have "rat_of_nat (unat b) \<le> rat_of_nat 255"
    by (simp only: of_nat_le_iff unat_byte_le)
  also have "rat_of_nat 255 = 255" by (rule of_nat_numeral)
  finally show "rat_of_nat (unat b) \<le> 255" .
qed

lemma luma_range: "0 \<le> luma r g b \<and> luma r g b \<le> 255"
proof -
  define c1 :: rat where "c1 = fl (299 / 1000)"
  define c2 :: rat where "c2 = fl (587 / 1000)"
  define c3 :: rat where "c3 = fl (114 / 1000)"
  have c: "0 \<le> c1" "0 \<le> c2" "0 \<le> c3"
    using fl_consts_pos by (simp_all add: c1_def c2_def c3_def)
  note m1 = fmul_mono [OF c(1) rat_of_byte_bounds [of r]]
  note m2 = fmul_mono [OF c(2) rat_of_byte_bounds [of g]]
  note m3 = fmul_mono [OF c(3) rat_of_byte_bounds [of b]]
  have a1: "0 \<le> fadd (fmul c1 (of_nat (unat r))) (fmul c2 (of_nat (unat g))) \<and>
        fadd (fmul c1 (of_nat (unat r))) (fmul c2 (of_nat (unat g)))
          \<le> fadd (fmul c1 255) (fmul c2 255)"
    using m1 m2 by (intro fadd_mono) simp_all
  have a2: "0 \<le> fadd (fadd (fmul c1 (of_nat (unat r))) (fmul c2 (of_nat (unat g))))
                    (fmul c3 (of_nat (unat b))) \<and>
        fadd (fadd (fmul c1 (of_nat (unat r))) (fmul c2 (of_nat (unat g))))
                    (fmul c3 (of_nat (unat b)))
          \<le> fadd (fadd (fmul c1 255) (fmul c2 255)) (fmul c3 255)"
    using a1 m3 by (intro fadd_mono) simp_all
  have top: "js_round (fadd (fadd (fmul c1 255) (fmul c2 255)) (fmul c3 255)) = 255"
    using luma_255 by (simp add: luma_def c1_def c2_def c3_def)
  have lo: "0 \<le> luma r g b"
    using a2 by (simp add: luma_def c1_def c2_def c3_def js_round_def)
  have "luma r g b \<le> js_round (fadd (fadd (fmul c1 255) (fmul c2 255)) (fmul c3 255))"
    unfolding luma_def c1_def [symmetric] c2_def [symmetric] c3_def [symmetric]
    using a2 by (intro js_round_mono) simp
  then show ?thesis using lo top by simp
qed

lemma fl_of_int_nonneg:
  assumes "0 \<le> c" "c < 2 ^ 53"
  shows "fl (of_int c) = of_int c"
proof -
  have "nat c < 2 ^ 53" using assms by (simp add: nat_less_iff)
  then have "fl (of_nat (nat c)) = of_nat (nat c)" by (rule fl_of_nat)
  then show ?thesis using assms(1) by simp
qed

lemma ceil_fdiv_2000:
  assumes "0 < m" "m < 2000"
  shows "js_ceil (fdiv 2000 (of_nat m)) = \<lceil>(2000::rat) / of_nat m\<rceil>"
proof -
  define x :: rat where "x = 2000 / of_nat m"
  define c where "c = \<lceil>x\<rceil>"
  have m0: "(0::rat) < of_nat m" using assms by simp
  have x1: "1 < x" using assms by (simp add: x_def)
  have x0: "0 < x" using x1 by simp
  have xu: "x \<le> 2000"
  proof -
    have "(1::rat) \<le> of_nat m" using assms by simp
    then show ?thesis unfolding x_def by (simp add: pos_divide_le_eq)
  qed
  have cb: "rat_of_int c - 1 < x" "x \<le> rat_of_int c"
    using ceiling_correct [of x] by (simp_all add: c_def)
  have c0: "0 \<le> c" using cb x0 by linarith
  have cu: "c \<le> 2000" unfolding c_def using xu by (simp add: ceiling_le_iff)
  have "fl x \<le> fl (of_int c)" using x0 cb(2) by (intro fl_mono) simp_all
  also have "\<dots> = of_int c" using c0 cu by (intro fl_of_int_nonneg) simp_all
  finally have up: "fl x \<le> of_int c" .
  have gap: "1 / 2000 < x - (rat_of_int c - 1)"
  proof -
    have "rat_of_int ((c - 1) * int m) < rat_of_int 2000"
    proof -
      have "(rat_of_int c - 1) * of_nat m < 2000"
        using cb(1) m0 by (simp add: x_def pos_less_divide_eq)
      then show ?thesis by simp
    qed
    then have "(c - 1) * int m < 2000" by (simp only: of_int_less_iff)
    then have "(c - 1) * int m + 1 \<le> 2000" by simp
    then have "rat_of_int ((c - 1) * int m + 1) \<le> rat_of_int 2000" by (simp only: of_int_le_iff)
    then have "(rat_of_int c - 1) * of_nat m + 1 \<le> 2000" by simp
    then have "((rat_of_int c - 1) * of_nat m + 1) / of_nat m \<le> 2000 / of_nat m"
      using m0 by (intro divide_right_mono) simp_all
    moreover have "((rat_of_int c - 1) * of_nat m + 1) / of_nat m
        = (rat_of_int c - 1) + 1 / of_nat m"
      using m0 by (simp add: add_divide_distrib)
    ultimately have "(rat_of_int c - 1) + 1 / of_nat m \<le> x"
      by (simp only: x_def)
    moreover have "(1::rat) / 2000 < 1 / of_nat m"
      using assms by (simp add: field_simps)
    ultimately show ?thesis by linarith
  qed
  have e10: "ilog2 x \<le> 10"
  proof (rule ccontr)
    assume "\<not> ilog2 x \<le> 10"
    then have "11 \<le> ilog2 x" by simp
    then have "(2::rat) powi 11 \<le> 2 powi (ilog2 x)" by (intro power_int_increasing) simp_all
    moreover have "2 powi (ilog2 x) \<le> x" using ilog2_bounds [OF x0] by simp
    ultimately show False using xu by simp
  qed
  have "(2::rat) powi (ilog2 x - 52) \<le> 2 powi (- 42)"
    using e10 by (intro power_int_increasing) simp_all
  then have "\<bar>fl x - x\<bar> \<le> 2 powi (- 42) / 2" using fl_error [OF x0] by linarith
  moreover have "(2::rat) powi (- 42) / 2 < 1 / 2000" by (simp add: power_int_minus)
  ultimately have "\<bar>fl x - x\<bar> < 1 / 2000" by linarith
  then have "x - fl x < 1 / 2000" by (simp only: abs_less_iff) linarith
  then have lo: "rat_of_int c - 1 < fl x" using gap by linarith
  have "\<lceil>fl x\<rceil> = c" using lo up by (simp add: ceiling_eq_iff)
  then show ?thesis by (simp add: js_ceil_def fdiv_def x_def c_def)
qed

section \<open>Scaler\<close>

lemma scale_factor_small:
  assumes "0 < max w h" "max w h < 2000"
  shows "scale_factor w h = Some (nat \<lceil>(2000::rat) / of_nat (max w h)\<rceil>)"
proof -
  define m where "m = max w h"
  have "scale_factor w h =
      (if m < 2000
       then (if m = 0 then None else Some (nat (js_ceil (fdiv 2000 (of_nat m)))))
       else Some 1)"
    by (simp only: scale_factor_def Let_def m_def)
  with assms [folded m_def] ceil_fdiv_2000 [of m] show ?thesis
    unfolding m_def [symmetric] by simp
qed

lemma scale_factor_large:
  assumes "\<not> max w h < 2000"
  shows "scale_factor w h = Some 1"
proof -
  define m where "m = max w h"
  have "scale_factor w h =
      (if m < 2000
       then (if m = 0 then None else Some (nat (js_ceil (fdiv 2000 (of_nat m)))))
       else Some 1)"
    by (simp only: scale_factor_def Let_def m_def)
  with assms [folded m_def] show ?thesis by simp
qed

lemma ceil_covers:
  assumes "0 < m"
  shows "2000 \<le> m * nat \<lceil>(2000::rat) / of_nat m\<rceil>"
proof -
  define c where "c = \<lceil>(2000::rat) / of_nat m\<rceil>"
  have m0: "(0::rat) < of_nat m" using assms by simp
  have "(0::rat) \<le> 2000 / of_nat m" by simp
  then have "\<lceil>0::rat\<rceil> \<le> \<lceil>(2000::rat) / of_nat m\<rceil>" by (rule ceiling_mono)
  then have c0: "0 \<le> c" by (simp add: c_def)
  have "(2000::rat) / of_nat m \<le> of_int c" unfolding c_def by (rule le_of_int_ceiling)
  then have "(2000::rat) \<le> of_int c * of_nat m" using m0 by (simp add: pos_divide_le_eq)
  then have "rat_of_int 2000 \<le> rat_of_int (c * int m)" by simp
  then have "2000 \<le> c * int m" by (simp only: of_int_le_iff)
  then have "2000 \<le> int (nat c) * int m" using c0 by simp
  then have "int 2000 \<le> int (m * nat c)" by (simp add: mult.commute)
  then show ?thesis unfolding c_def [symmetric] by (simp only: of_nat_le_iff)
qed

lemma max_mult_right: "max (a * s) (b * s) = max a b * (s::nat)"
  by (simp add: max_def)

text \<open>
  Claim C7. For positive width and height the Scaler takes
  \<open>scale = \<lceil>2000 / max width height\<rceil>\<close> when \<open>max width height < 2000\<close> and
  \<open>scale = 1\<close> otherwise: the rounded quotient of the source has the ceiling of the exact
  quotient. The canvas is \<open>width * scale\<close> by \<open>height * scale\<close>, its longer side is at
  least 2000, and an image whose longer side is 500 is scaled by 4.
\<close>

theorem scale_factor_spec:
  assumes "0 < w" and "0 < h"
  shows "scale_factor w h
           = Some (if max w h < 2000 then nat \<lceil>(2000::rat) / of_nat (max w h)\<rceil> else 1)
       \<and> (\<exists>s. scale_factor w h = Some s
              \<and> 2000 \<le> max (canvas_dim w (scale_factor w h)) (canvas_dim h (scale_factor w h)))
       \<and> (max w h = 500 \<longrightarrow> scale_factor w h = Some 4
              \<and> canvas_dim w (scale_factor w h) = w * 4
              \<and> canvas_dim h (scale_factor w h) = h * 4)"
proof (cases "max w h < 2000")
  case True
  have m0: "0 < max w h" using assms by simp
  note sf = scale_factor_small [OF m0 True]
  have "2000 \<le> max w h * nat \<lceil>(2000::rat) / of_nat (max w h)\<rceil>"
    by (rule ceil_covers [OF m0])
  then have side: "2000 \<le> max (canvas_dim w (scale_factor w h)) (canvas_dim h (scale_factor w h))"
    by (simp add: sf canvas_dim_def max_mult_right)
  have four: "max w h = 500 \<Longrightarrow> nat \<lceil>(2000::rat) / of_nat (max w h)\<rceil> = 4"
    by simp
  have dims: "max w h = 500 \<Longrightarrow> canvas_dim w (scale_factor w h) = w * 4
      \<and> canvas_dim h (scale_factor w h) = h * 4"
    using four by (simp only: sf canvas_dim_def) simp
  show ?thesis using True sf side four dims by (simp only:) simp
next
  case False
  have sf: "scale_factor w h = Some 1" by (rule scale_factor_large [OF False])
  have big: "2000 \<le> max w h" using False by (simp only: not_less)
  have n5: "max w h \<noteq> 500" using big by linarith
  have "max (canvas_dim w (Some 1)) (canvas_dim h (Some 1)) = max w h"
    by (simp add: canvas_dim_def)
  then show ?thesis using False big n5 by (simp only: sf) simp
qed

theorem scale_factor_spec_witness:
  "(0::nat) < 500 \<and> (0::nat) < 375 \<and> scale_factor 500 375 = Some 4
     \<and> canvas_dim 500 (scale_factor 500 375) = 2000
     \<and> canvas_dim 375 (scale_factor 500 375) = 1500"
  using scale_factor_spec [of 500 375] by (simp add: canvas_dim_def)

lemma to_uint8_clamped_id:
  assumes "0 \<le> v" "v \<le> 255"
  shows "uint (to_uint8_clamped v) = v"
proof -
  have "to_uint8_clamped v = word_of_int v" using assms by (simp add: to_uint8_clamped_def)
  moreover have "uint (word_of_int v :: byte) = v"
    using assms by (simp add: uint_word_of_int take_bit_int_eq_self)
  ultimately show ?thesis by simp
qed

text \<open>
  Claim C10. For all bytes R, G, B the value
  \<open>g = round (0.299 * R + 0.587 * G + 0.114 * B)\<close> of the source lies in \<open>0..255\<close>: it is
  an index inside the 256 bins of the histogram, and the store into the colour channels
  does not clamp it.
\<close>

theorem luma_in_byte_range:
  "0 \<le> luma r g b \<and> luma r g b \<le> 255
     \<and> nat (luma r g b) < length (replicate 256 (0::32 word))
     \<and> uint (to_uint8_clamped (luma r g b)) = luma r g b"
proof -
  have r: "0 \<le> luma r g b" "luma r g b \<le> 255" using luma_range [of r g b] by simp_all
  have "nat (luma r g b) < 256" using r by linarith
  then show ?thesis using r to_uint8_clamped_id [OF r] by simp
qed

section \<open>Pass 1: the loop is a map, the histogram counts gray values\<close>

lemma gray_of_range: "0 \<le> gray_of p \<and> gray_of p \<le> 255"
  by (simp add: gray_of_def luma_range)

lemma to_uint8_clamped_in_range:
  "0 \<le> v \<Longrightarrow> v \<le> 255 \<Longrightarrow> to_uint8_clamped v = word_of_int v"
  by (simp add: to_uint8_clamped_def)

lemma grayscale_pass_eq:
  "grayscale_pass ps h = (map spec_gray_pixel ps, foldl hist_incr h (map gray_of ps))"
proof (induction ps arbitrary: h)
  case Nil
  then show ?case by simp
next
  case (Cons p ps)
  obtain r g b a where p: "p = RGBA r g b a" by (cases p)
  have rg: "0 \<le> luma r g b" "luma r g b \<le> 255" using luma_range [of r g b] by simp_all
  show ?case
    by (simp add: p Cons.IH Let_def spec_gray_pixel_def gray_of_def
        to_uint8_clamped_in_range [OF rg])
qed

lemma hist_incr_length: "length (hist_incr h g) = length h"
  by (simp add: hist_incr_def)

lemma foldl_hist_incr_length: "length (foldl hist_incr h gs) = length h"
  by (induction gs arbitrary: h) (simp_all add: hist_incr_length)

lemma hist_incr_nth:
  assumes "0 \<le> g" "nat g < length h" "k < length h"
  shows "hist_incr h g ! k = h ! k + (if g = int k then 1 else 0)"
  using assms by (auto simp add: hist_incr_def nth_list_update)

lemma foldl_hist_incr_nth:
  assumes "length h = 256" "k < 256"
  shows "foldl hist_incr h (map gray_of ps) ! k
           = h ! k + of_nat (length (filter (\<lambda>p. gray_of p = int k) ps))"
  using assms
proof (induction ps arbitrary: h)
  case Nil
  then show ?case by simp
next
  case (Cons p ps)
  have g: "0 \<le> gray_of p" "nat (gray_of p) < length h"
    using gray_of_range [of p] Cons.prems by (simp_all add: nat_less_iff)
  have len: "length (hist_incr h (gray_of p)) = 256"
    using Cons.prems by (simp add: hist_incr_length)
  have k: "k < length h" using Cons.prems by simp
  show ?case
    using Cons.IH [OF len Cons.prems(2)] hist_incr_nth [OF g k]
    by simp
qed

section \<open>Passes 2 and 3: the loops are maps, the counter is a filter length\<close>

lemma to_uint8_clamped_consts: "to_uint8_clamped 255 = 255" "to_uint8_clamped 0 = 0"
  by (simp_all add: to_uint8_clamped_def)

lemma binarize_pass_eq:
  "binarize_pass thr ps n
     = (map (spec_bw_pixel thr) ps, n + length (filter (\<lambda>p. thr < unat (red p)) ps))"
proof (induction ps arbitrary: n)
  case Nil
  then show ?case by simp
next
  case (Cons p ps)
  obtain r g b a where p: "p = RGBA r g b a" by (cases p)
  show ?case
    by (simp add: p Cons.IH spec_bw_pixel_def to_uint8_clamped_consts)
qed

lemma byte_complement: "to_uint8_clamped (255 - uint (r :: byte)) = 255 - r"
proof -
  have u: "uint r \<le> 255" "0 \<le> uint r" using uint_lt2p [of r] by simp_all
  then have m: "max 0 (255 - uint r) = 255 - uint r" by simp
  have "to_uint8_clamped (255 - uint r) = word_of_int (255 - uint r)"
    by (simp add: to_uint8_clamped_def m)
  also have "\<dots> = 255 - r" by simp
  finally show ?thesis .
qed

lemma invert_pass_eq:
  "invert_pass ps = map (\<lambda>p. RGBA (255 - red p) (255 - red p) (255 - red p) (alpha p)) ps"
proof (induction ps)
  case Nil
  then show ?case by simp
next
  case (Cons p ps)
  obtain r g b a where p: "p = RGBA r g b a" by (cases p)
  show ?case by (simp add: p Cons.IH byte_complement Let_def)
qed

lemma invert_pass_bw:
  "invert_pass (map (spec_bw_pixel thr) ps) = map spec_invert_pixel (map (spec_bw_pixel thr) ps)"
  by (induction ps)
     (simp_all add: spec_bw_pixel_def spec_invert_pixel_def to_uint8_clamped_consts Let_def)

lemma count_white_bw:
  "count_white (map (spec_bw_pixel thr) ps) = length (filter (\<lambda>p. thr < unat (red p)) ps)"
  by (induction ps) (simp_all add: count_white_def spec_bw_pixel_def is_white_def)

lemma count_black_bw:
  "count_black (map (spec_bw_pixel thr) ps) = length (filter (\<lambda>p. \<not> thr < unat (red p)) ps)"
  by (induction ps) (simp_all add: count_black_def spec_bw_pixel_def is_black_def)

lemma count_white_inv_bw:
  "count_white (map spec_invert_pixel (map (spec_bw_pixel thr) ps))
     = count_black (map (spec_bw_pixel thr) ps)"
  by (induction ps)
     (simp_all add: count_white_def count_black_def spec_bw_pixel_def spec_invert_pixel_def
        is_white_def is_black_def)

lemma count_black_inv_bw:
  "count_black (map spec_invert_pixel (map (spec_bw_pixel thr) ps))
     = count_white (map (spec_bw_pixel thr) ps)"
  by (induction ps)
     (simp_all add: count_white_def count_black_def spec_bw_pixel_def spec_invert_pixel_def
        is_white_def is_black_def)

lemma filter_split_length:
  "length (filter P xs) + length (filter (\<lambda>x. \<not> P x) xs) = length xs"
  by (induction xs) simp_all

lemma process_pixels_eq:
  "process_pixels data =
     (let gray = map spec_gray_pixel data;
          h = foldl hist_incr (replicate 256 0) (map gray_of data);
          thr = otsu_threshold h (length data);
          bin = map (spec_bw_pixel thr) gray;
          white = count_white bin;
          black = int (count_black bin)
      in \<lparr>res_data = (if int white < black then map spec_invert_pixel bin else bin),
          res_hist = h, res_threshold = thr, res_whiteCount = white, res_blackCount = black,
          res_inverted = (int white < black)\<rparr>)"
proof -
  define gray where "gray = map spec_gray_pixel data"
  define thr where "thr = otsu_threshold (foldl hist_incr (replicate 256 0) (map gray_of data)) (length data)"
  have l: "length (filter (\<lambda>p. thr < unat (red p)) gray)
      + length (filter (\<lambda>p. \<not> thr < unat (red p)) gray) = length data"
    using filter_split_length [of "\<lambda>p. thr < unat (red p)" gray] by (simp add: gray_def)
  then have b: "int (length data) - int (length (filter (\<lambda>p. thr < unat (red p)) gray))
      = int (length (filter (\<lambda>p. \<not> thr < unat (red p)) gray))"
    by linarith
  show ?thesis
    unfolding process_pixels_def grayscale_pass_eq binarize_pass_eq polarity_pass_def Let_def
    using b
    by (simp add: gray_def [symmetric] thr_def [symmetric] count_white_bw count_black_bw
        invert_pass_bw)
qed

section \<open>Histogram of the gray buffer\<close>

lemma hist_bin_count:
  assumes "length ps < 2 ^ 32" "k < 256"
  shows "unat (foldl hist_incr (replicate 256 0) (map gray_of ps) ! k)
           = length (filter (\<lambda>p. gray_of p = int k) ps)"
proof -
  define c where "c = length (filter (\<lambda>p. gray_of p = int k) ps)"
  have "c \<le> length ps" unfolding c_def by (rule length_filter_le)
  then have c: "c < 2 ^ 32" using assms(1) by simp
  have "foldl hist_incr (replicate 256 0) (map gray_of ps) ! k = (0::32 word) + of_nat c"
    using foldl_hist_incr_nth [of "replicate 256 0" k ps] assms(2) by (simp add: c_def)
  then have "unat (foldl hist_incr (replicate 256 0) (map gray_of ps) ! k)
      = unat (of_nat c :: 32 word)" by simp
  also have "\<dots> = c" using c by (simp add: unat_of_nat)
  finally show ?thesis by (simp add: c_def)
qed

lemma filter_less_Suc:
  "length (filter (\<lambda>p. f p < int (Suc t)) ps)
     = length (filter (\<lambda>p. f p < int t) ps) + length (filter (\<lambda>p. f p = int t) ps)"
  by (induction ps) auto

lemma cum_weight_count:
  assumes "length ps < 2 ^ 32" "t \<le> 256"
  shows "cum_weight (foldl hist_incr (replicate 256 0) (map gray_of ps)) t
           = length (filter (\<lambda>p. gray_of p < int t) ps)"
  using assms(2)
proof (induction t)
  case 0
  have "\<And>p. \<not> gray_of p < 0" using gray_of_range by (simp add: not_less)
  then show ?case by simp
next
  case (Suc t)
  then have t: "t < 256" "t \<le> 256" by simp_all
  show ?case
    using Suc.IH [OF t(2)] hist_bin_count [OF assms(1) t(1)]
    by (simp only: cum_weight.simps filter_less_Suc)
qed

lemma cum_weight_total:
  assumes "length ps < 2 ^ 32"
  shows "cum_weight (foldl hist_incr (replicate 256 0) (map gray_of ps)) 256 = length ps"
proof -
  have "gray_of p < int 256" for p using gray_of_range [of p] by simp
  then have "filter (\<lambda>p. gray_of p < int 256) ps = ps" by simp
  then show ?thesis using cum_weight_count [OF assms, of 256] by simp
qed

lemma cum_weight_take:
  "t \<le> length h \<Longrightarrow> cum_weight h t = sum_list (map unat (take t h))"
  by (induction t) (simp_all add: take_Suc_conv_app_nth)

lemma hist_sum_total:
  assumes "length ps < 2 ^ 32"
  shows "sum_list (map unat (foldl hist_incr (replicate 256 0) (map gray_of ps))) = length ps"
proof -
  define h where "h = foldl hist_incr (replicate 256 (0::32 word)) (map gray_of ps)"
  have len: "length h = 256" by (simp add: h_def foldl_hist_incr_length)
  have "sum_list (map unat h) = cum_weight h 256"
    using cum_weight_take [of 256 h] len by simp
  then show ?thesis using cum_weight_total [OF assms] by (simp add: h_def)
qed

lemma red_gray_pixel: "uint (red (spec_gray_pixel p)) = gray_of p"
  using gray_of_range [of p]
  by (simp add: spec_gray_pixel_def uint_word_of_int take_bit_int_eq_self)

lemma unat_red_gray_pixel: "unat (red (spec_gray_pixel p)) = nat (gray_of p)"
  using red_gray_pixel [of p] by (simp add: nat_uint_eq [symmetric] del: nat_uint_eq)

text \<open>
  The luma expression is evaluated in binary64. Where the exact weighted sum is a tie,
  the rounded sum can lie below it: for R = 0, G = 36, B = 12 the exact sum is 22.5 and
  the source computes 22.
\<close>

lemma luma_tie_example: "luma 0 36 12 = 22"
  by code_simp

text \<open>
  Claim C4. For every buffer and threshold the Binarizer sets the three colour channels
  of a pixel to 255 when its gray value (the red channel, which pass 1 has set to the
  gray value) is greater than the threshold and to 0 otherwise, leaves alpha unchanged,
  and counts as white the pixels whose gray value is greater than the threshold.
\<close>

theorem binarize_pass_spec:
  "fst (binarize_pass thr ps 0) = map (spec_bw_pixel thr) ps
   \<and> snd (binarize_pass thr ps 0) = length (filter (\<lambda>p. thr < unat (red p)) ps)
   \<and> (\<forall>p \<in> set (fst (binarize_pass thr ps 0)).
         (red p = 0 \<or> red p = 255) \<and> green p = red p \<and> blue p = red p)
   \<and> map alpha (fst (binarize_pass thr ps 0)) = map alpha ps
   \<and> unat (red (spec_gray_pixel q)) = nat (gray_of q)"
  by (auto simp add: binarize_pass_eq spec_bw_pixel_def unat_red_gray_pixel)

theorem binarize_pass_spec_witness:
  "fst (binarize_pass 100 [RGBA 10 10 10 7, RGBA 200 200 200 9] 0)
     = [RGBA 0 0 0 7, RGBA 255 255 255 9]
   \<and> snd (binarize_pass 100 [RGBA 10 10 10 7, RGBA 200 200 200 9] 0) = 1"
  using binarize_pass_spec [of 100 "[RGBA 10 10 10 7, RGBA 200 200 200 9]"]
  by (simp add: spec_bw_pixel_def)

text \<open>
  Claim C5. The inversion pass, which replaces every colour channel \<open>v\<close> by
  \<open>255 - v\<close>, runs exactly when the binarized buffer has more black than white pixels
  (not on a tie), and the final buffer never has more black than white pixels.
\<close>

theorem polarity_spec:
  "(let r = process_pixels data;
        bin = map (spec_bw_pixel (res_threshold r)) (map spec_gray_pixel data)
    in res_whiteCount r = count_white bin
     \<and> res_blackCount r = int (count_black bin)
     \<and> res_inverted r = (count_white bin < count_black bin)
     \<and> res_data r = (if count_white bin < count_black bin then map spec_invert_pixel bin else bin)
     \<and> count_black (res_data r) \<le> count_white (res_data r))"
  by (simp add: process_pixels_eq Let_def count_white_inv_bw count_black_inv_bw del: map_map)

section \<open>The Otsu loop keeps the first largest variance among the scanned candidates\<close>

lemma otsu_loop_done:
  "\<not> t < 256 \<Longrightarrow> otsu_loop hist totalPixels sumAll t sumB wB maxVar thr = thr"
  by (subst otsu_loop.simps) simp

lemma otsu_loop_skip:
  "t < 256 \<Longrightarrow> wB + unat (hist ! t) = 0 \<Longrightarrow>
     otsu_loop hist totalPixels sumAll t sumB wB maxVar thr
       = otsu_loop hist totalPixels sumAll (Suc t) sumB 0 maxVar thr"
  by (subst otsu_loop.simps) simp

lemma otsu_loop_stop:
  "t < 256 \<Longrightarrow> wB + unat (hist ! t) \<noteq> 0 \<Longrightarrow> int totalPixels - int (wB + unat (hist ! t)) = 0 \<Longrightarrow>
     otsu_loop hist totalPixels sumAll t sumB wB maxVar thr = thr"
  by (subst otsu_loop.simps) (auto simp add: Let_def)

lemma otsu_loop_better:
  "t < 256 \<Longrightarrow> wB + unat (hist ! t) \<noteq> 0 \<Longrightarrow> int totalPixels - int (wB + unat (hist ! t)) \<noteq> 0 \<Longrightarrow>
   maxVar < variance (wB + unat (hist ! t)) (int totalPixels - int (wB + unat (hist ! t)))
              (sumB + t * unat (hist ! t)) sumAll \<Longrightarrow>
     otsu_loop hist totalPixels sumAll t sumB wB maxVar thr
       = otsu_loop hist totalPixels sumAll (Suc t) (sumB + t * unat (hist ! t)) (wB + unat (hist ! t))
           (variance (wB + unat (hist ! t)) (int totalPixels - int (wB + unat (hist ! t)))
              (sumB + t * unat (hist ! t)) sumAll) t"
  by (subst otsu_loop.simps) (auto simp add: Let_def)

lemma otsu_loop_keep:
  "t < 256 \<Longrightarrow> wB + unat (hist ! t) \<noteq> 0 \<Longrightarrow> int totalPixels - int (wB + unat (hist ! t)) \<noteq> 0 \<Longrightarrow>
   \<not> maxVar < variance (wB + unat (hist ! t)) (int totalPixels - int (wB + unat (hist ! t)))
              (sumB + t * unat (hist ! t)) sumAll \<Longrightarrow>
     otsu_loop hist totalPixels sumAll t sumB wB maxVar thr
       = otsu_loop hist totalPixels sumAll (Suc t) (sumB + t * unat (hist ! t)) (wB + unat (hist ! t))
           maxVar thr"
  by (subst otsu_loop.simps) (auto simp add: Let_def)

lemma scanned_iff:
  "scanned hist totalPixels k \<longleftrightarrow>
     k < 256 \<and> 0 < cum_weight hist (Suc k) \<and> (\<forall>j \<le> k. \<not> stops_at hist totalPixels j)"
  by (auto simp add: scanned_def list_all_iff less_Suc_eq_le)

lemma otsu_loop_spec:
  assumes "wB = cum_weight hist t" "sumB = weighted_sum hist t" "t \<le> 256"
    and "\<forall>j < t. \<not> stops_at hist totalPixels j"
    and "R = otsu_loop hist totalPixels (weighted_sum hist 256) t sumB wB maxVar thr"
  shows "((\<exists>k \<ge> t. scanned hist totalPixels k \<and> maxVar < class_variance hist totalPixels k) \<longrightarrow>
            t \<le> R \<and> scanned hist totalPixels R \<and> maxVar < class_variance hist totalPixels R \<and>
            (\<forall>k \<ge> t. scanned hist totalPixels k \<longrightarrow>
                class_variance hist totalPixels k \<le> class_variance hist totalPixels R) \<and>
            (\<forall>k \<ge> t. k < R \<longrightarrow> scanned hist totalPixels k \<longrightarrow>
                class_variance hist totalPixels k < class_variance hist totalPixels R))
       \<and> (\<not> (\<exists>k \<ge> t. scanned hist totalPixels k \<and> maxVar < class_variance hist totalPixels k) \<longrightarrow>
            R = thr)"
  using assms
proof (induction "256 - t" arbitrary: t sumB wB maxVar thr)
  case 0
  then have t: "\<not> t < 256" by simp
  have ne: "\<And>k. t \<le> k \<Longrightarrow> \<not> scanned hist totalPixels k"
    using t by (simp add: scanned_iff)
  have "R = thr" using "0.prems"(5) otsu_loop_done [OF t] by simp
  then show ?case using ne by blast
next
  case (Suc n)
  then have t: "t < 256" and n: "n = 256 - Suc t" and t': "Suc t \<le> 256" by simp_all
  define h where "h = unat (hist ! t)"
  have wB': "wB + h = cum_weight hist (Suc t)" using Suc.prems(1) by (simp add: h_def)
  have sB': "sumB + t * h = weighted_sum hist (Suc t)" using Suc.prems(2) by (simp add: h_def)
  let ?f = "class_variance hist totalPixels"
  let ?S = "scanned hist totalPixels"
  let ?loop = "otsu_loop hist totalPixels (weighted_sum hist 256)"
  have cases_k: "\<And>k. t \<le> k \<Longrightarrow> k = t \<or> Suc t \<le> k" by auto
  have up: "\<And>k. Suc t \<le> k \<Longrightarrow> t \<le> k" by simp
  show ?case
  proof (cases "wB + h = 0")
    case True
    then have h0: "h = 0" and w0: "wB = 0" by simp_all
    have nt: "\<not> ?S t" using True wB' by (simp add: scanned_iff)
    have ns: "\<not> stops_at hist totalPixels t" using True wB' by (simp add: stops_at_def)
    have nostop: "\<forall>j < Suc t. \<not> stops_at hist totalPixels j"
      using Suc.prems(4) ns by (simp add: less_Suc_eq)
    have "?loop t sumB wB maxVar thr = ?loop (Suc t) sumB 0 maxVar thr"
      using otsu_loop_skip [where t=t and wB=wB and hist=hist and totalPixels=totalPixels and maxVar=maxVar and sumAll="weighted_sum hist 256" and sumB=sumB and thr=thr] t True by (simp add: h_def)
    then have step: "R = ?loop (Suc t) sumB 0 maxVar thr" using Suc.prems(5) by simp
    have p1: "0 = cum_weight hist (Suc t)" using wB' True by simp
    have p2: "sumB = weighted_sum hist (Suc t)" using sB' h0 by simp
    note IH = Suc.hyps(1) [OF n p1 p2 t' nostop step]
    show ?thesis using IH nt cases_k up by blast
  next
    case False
    note nz = False
    show ?thesis
    proof (cases "int totalPixels - int (wB + h) = 0")
      case True
      have st: "stops_at hist totalPixels t" using nz True wB' by (simp add: stops_at_def)
      have ne: "\<And>k. t \<le> k \<Longrightarrow> \<not> ?S k"
        using st by (auto simp add: scanned_iff)
      have "?loop t sumB wB maxVar thr = thr"
        using otsu_loop_stop [where t=t and wB=wB and hist=hist and totalPixels=totalPixels and maxVar=maxVar and sumAll="weighted_sum hist 256" and sumB=sumB and thr=thr] t nz True by (simp add: h_def)
      then have "R = thr" using Suc.prems(5) by simp
      then show ?thesis using ne by blast
    next
      case False
      note nf = False
      have ns: "\<not> stops_at hist totalPixels t" using nf wB' by (simp add: stops_at_def)
      have nostop: "\<forall>j < Suc t. \<not> stops_at hist totalPixels j"
        using Suc.prems(4) ns by (simp add: less_Suc_eq)
      have St: "?S t" using t nz wB' nostop by (simp add: scanned_iff less_Suc_eq_le)
      define v where "v = variance (wB + h) (int totalPixels - int (wB + h)) (sumB + t * h)
          (weighted_sum hist 256)"
      have v: "v = ?f t" by (simp add: v_def class_variance_def wB' sB')
      show ?thesis
      proof (cases "maxVar < v")
        case True
        have "?loop t sumB wB maxVar thr = ?loop (Suc t) (sumB + t * h) (wB + h) v t"
          using otsu_loop_better [where t=t and wB=wB and hist=hist and totalPixels=totalPixels and maxVar=maxVar and sumAll="weighted_sum hist 256" and sumB=sumB and thr=thr]
            t nz nf True
          by (simp add: h_def v_def)
        then have step: "R = ?loop (Suc t) (sumB + t * h) (wB + h) v t"
          using Suc.prems(5) by simp
        note IH = Suc.hyps(1) [OF n wB' sB' t' nostop step]
        have mt: "maxVar < ?f t" using True v by simp
        show ?thesis
        proof (cases "\<exists>k \<ge> Suc t. ?S k \<and> ?f t < ?f k")
          case True
          then have R: "Suc t \<le> R" "?S R" "?f t < ?f R"
            "\<And>k. Suc t \<le> k \<Longrightarrow> ?S k \<Longrightarrow> ?f k \<le> ?f R"
            "\<And>k. Suc t \<le> k \<Longrightarrow> k < R \<Longrightarrow> ?S k \<Longrightarrow> ?f k < ?f R"
            using IH unfolding v by blast+
          have a: "t \<le> R" using R(1) by simp
          have b: "maxVar < ?f R" using R(3) mt by simp
          have c: "\<And>k. t \<le> k \<Longrightarrow> ?S k \<Longrightarrow> ?f k \<le> ?f R"
          proof -
            fix k assume "t \<le> k" "?S k"
            then show "?f k \<le> ?f R" using cases_k [of k] R(3) R(4) [of k] by auto
          qed
          have d: "\<And>k. t \<le> k \<Longrightarrow> k < R \<Longrightarrow> ?S k \<Longrightarrow> ?f k < ?f R"
          proof -
            fix k assume "t \<le> k" "k < R" "?S k"
            then show "?f k < ?f R" using cases_k [of k] R(3) R(5) [of k] by auto
          qed
          show ?thesis using a b c d R(2) by blast
        next
          case False
          then have Rt: "R = t" using IH unfolding v by blast
          have c: "\<And>k. t \<le> k \<Longrightarrow> ?S k \<Longrightarrow> ?f k \<le> ?f t"
          proof -
            fix k assume "t \<le> k" "?S k"
            then show "?f k \<le> ?f t" using cases_k [of k] False by (auto simp add: not_less)
          qed
          show ?thesis unfolding Rt using St mt c by auto
        qed
      next
        case False
        have "?loop t sumB wB maxVar thr = ?loop (Suc t) (sumB + t * h) (wB + h) maxVar thr"
          using otsu_loop_keep [where t=t and wB=wB and hist=hist and totalPixels=totalPixels and maxVar=maxVar and sumAll="weighted_sum hist 256" and sumB=sumB and thr=thr]
            t nz nf False
          by (simp add: h_def v_def)
        then have step: "R = ?loop (Suc t) (sumB + t * h) (wB + h) maxVar thr"
          using Suc.prems(5) by simp
        note IH = Suc.hyps(1) [OF n wB' sB' t' nostop step]
        have le: "?f t \<le> maxVar" using False v by simp
        show ?thesis
        proof (cases "\<exists>k \<ge> Suc t. ?S k \<and> maxVar < ?f k")
          case True
          then have R: "Suc t \<le> R" "?S R" "maxVar < ?f R"
            "\<And>k. Suc t \<le> k \<Longrightarrow> ?S k \<Longrightarrow> ?f k \<le> ?f R"
            "\<And>k. Suc t \<le> k \<Longrightarrow> k < R \<Longrightarrow> ?S k \<Longrightarrow> ?f k < ?f R"
            using IH by blast+
          have a: "t \<le> R" using R(1) by simp
          have lt: "?f t < ?f R" using le R(3) by simp
          have c: "\<And>k. t \<le> k \<Longrightarrow> ?S k \<Longrightarrow> ?f k \<le> ?f R"
          proof -
            fix k assume "t \<le> k" "?S k"
            then show "?f k \<le> ?f R" using cases_k [of k] lt R(4) [of k] by auto
          qed
          have d: "\<And>k. t \<le> k \<Longrightarrow> k < R \<Longrightarrow> ?S k \<Longrightarrow> ?f k < ?f R"
          proof -
            fix k assume "t \<le> k" "k < R" "?S k"
            then show "?f k < ?f R" using cases_k [of k] lt R(5) [of k] by auto
          qed
          show ?thesis using a c d R(2,3) by blast
        next
          case False
          then have Rt: "R = thr" using IH by blast
          have ne: "\<And>k. t \<le> k \<Longrightarrow> ?S k \<Longrightarrow> \<not> maxVar < ?f k"
          proof -
            fix k assume "t \<le> k" "?S k"
            then show "\<not> maxVar < ?f k" using cases_k [of k] False le by (auto simp add: not_less)
          qed
          show ?thesis using Rt ne by blast
        qed
      qed
    qed
  qed
qed

section \<open>The variance of a scanned candidate is positive\<close>

lemma cum_weight_mono: "t \<le> t' \<Longrightarrow> cum_weight hist t \<le> cum_weight hist t'"
  by (induction t') (auto simp add: le_Suc_eq)

lemma weighted_sum_le: "weighted_sum hist t \<le> t * cum_weight hist t"
proof (induction t)
  case 0
  then show ?case by simp
next
  case (Suc t)
  have "weighted_sum hist (Suc t) \<le> t * cum_weight hist t + t * unat (hist ! t)"
    using Suc by simp
  also have "\<dots> = t * cum_weight hist (Suc t)" by (simp add: algebra_simps)
  also have "\<dots> \<le> Suc t * cum_weight hist (Suc t)" by simp
  finally show ?case .
qed

lemma weighted_sum_Suc_le: "weighted_sum hist (Suc t) \<le> t * cum_weight hist (Suc t)"
proof -
  have "weighted_sum hist (Suc t) \<le> t * cum_weight hist t + t * unat (hist ! t)"
    using weighted_sum_le [of hist t] by simp
  then show ?thesis by (simp add: algebra_simps)
qed

lemma weighted_sum_above:
  "t \<le> t' \<Longrightarrow> weighted_sum hist t + t * cum_weight hist t'
      \<le> weighted_sum hist t' + t * cum_weight hist t"
proof (induction t')
  case 0
  then show ?case by simp
next
  case (Suc t')
  show ?case
  proof (cases "t = Suc t'")
    case True
    then show ?thesis by simp
  next
    case False
    then have le: "t \<le> t'" using Suc.prems by simp
    have m: "t * unat (hist ! t') \<le> t' * unat (hist ! t')" using le by (rule mult_le_mono1)
    show ?thesis
      unfolding cum_weight.simps weighted_sum.simps add_mult_distrib2
      using Suc.IH [OF le] m by linarith
  qed
qed

lemma fl_nat_bound:
  assumes "k < 2 ^ 53"
  shows "x \<le> of_nat k \<Longrightarrow> 0 \<le> x \<Longrightarrow> fl x \<le> of_nat k"
    and "of_nat k \<le> x \<Longrightarrow> of_nat k \<le> fl x"
proof -
  show "fl x \<le> of_nat k" if "x \<le> of_nat k" "0 \<le> x"
    using fl_mono [OF that(2) that(1)] fl_of_nat [OF assms] by simp
  show "of_nat k \<le> fl x" if "of_nat k \<le> x"
    using fl_mono [of "of_nat k" x] that fl_of_nat [OF assms] by simp
qed

lemma variance_pos:
  assumes wB: "0 < wB" and wF: "0 < wF" and k: "k < 256"
    and lo: "sumB \<le> k * wB"
    and hi: "int (Suc k) * wF \<le> int sumAll - int sumB"
  shows "0 < variance wB wF sumB sumAll"
proof -
  have k53: "k < 2 ^ 53" "Suc k < 2 ^ 53" using k by simp_all
  define mB where "mB = fdiv (of_nat sumB) (of_nat wB)"
  define mF where "mF = fdiv (of_int (int sumAll - int sumB)) (of_int wF)"
  have wB0: "(0::rat) < of_nat wB" using wB by simp
  have wF0: "(0::rat) < of_int wF" using wF by simp
  have "rat_of_nat sumB \<le> rat_of_nat (k * wB)" using lo by (simp only: of_nat_le_iff)
  then have "rat_of_nat sumB / of_nat wB \<le> of_nat k"
    using wB0 by (simp add: pos_divide_le_eq)
  moreover have "(0::rat) \<le> of_nat sumB / of_nat wB" by simp
  ultimately have b: "mB \<le> of_nat k"
    unfolding mB_def fdiv_def by (intro fl_nat_bound(1) [OF k53(1)])
  have "rat_of_int (int (Suc k) * wF) \<le> rat_of_int (int sumAll - int sumB)"
    using hi by (simp only: of_int_le_iff)
  then have "rat_of_nat (Suc k) * of_int wF \<le> rat_of_int (int sumAll - int sumB)"
    by simp
  then have "rat_of_nat (Suc k) \<le> rat_of_int (int sumAll - int sumB) / of_int wF"
    using wF0 by (simp add: pos_le_divide_eq)
  then have f: "of_nat (Suc k) \<le> mF"
    unfolding mF_def fdiv_def by (intro fl_nat_bound(2) [OF k53(2)])
  have "mB - mF < 0" using b f by simp
  then have "fsub mB mF < 0" unfolding fsub_def by (rule fl_neg)
  then have "0 < fsub mB mF * fsub mB mF" by (simp add: mult_neg_neg)
  then have sq: "0 < fsq (fsub mB mF)" unfolding fsq_def by (rule fl_pos)
  have "(0::rat) < of_nat wB * of_int wF" using wB0 wF0 by simp
  then have w: "0 < fmul (of_nat wB) (of_int wF)" unfolding fmul_def by (rule fl_pos)
  have "0 < fmul (of_nat wB) (of_int wF) * fsq (fsub mB mF)" using w sq by simp
  then have "0 < fl (fmul (of_nat wB) (of_int wF) * fsq (fsub mB mF))" by (rule fl_pos)
  moreover have "variance wB wF sumB sumAll
      = fl (fmul (of_nat wB) (of_int wF) * fsq (fsub mB mF))"
    unfolding variance_def Let_def mB_def mF_def by (simp only: fmul_def)
  ultimately show ?thesis by simp
qed

lemma class_variance_pos:
  assumes "scanned hist totalPixels k" and "totalPixels = cum_weight hist 256"
  shows "0 < class_variance hist totalPixels k"
proof -
  have k: "k < 256" and w: "0 < cum_weight hist (Suc k)"
    and ns: "\<not> stops_at hist totalPixels k"
    using assms(1) by (auto simp add: scanned_iff)
  have le: "cum_weight hist (Suc k) \<le> totalPixels"
    unfolding assms(2) using k by (intro cum_weight_mono) simp
  have ne: "int totalPixels - int (cum_weight hist (Suc k)) \<noteq> 0"
    using ns w by (auto simp add: stops_at_def)
  then have wF: "0 < int totalPixels - int (cum_weight hist (Suc k))" using le by linarith
  have sk: "Suc k \<le> 256" using k by simp
  have "weighted_sum hist (Suc k) + Suc k * cum_weight hist 256
      \<le> weighted_sum hist 256 + Suc k * cum_weight hist (Suc k)"
    by (rule weighted_sum_above [OF sk])
  then have "int (weighted_sum hist (Suc k)) + int (Suc k) * int totalPixels
      \<le> int (weighted_sum hist 256) + int (Suc k) * int (cum_weight hist (Suc k))"
    unfolding assms(2) by (simp only: of_nat_add [symmetric] of_nat_mult [symmetric] of_nat_le_iff)
  then have hi: "int (Suc k) * (int totalPixels - int (cum_weight hist (Suc k)))
      \<le> int (weighted_sum hist 256) - int (weighted_sum hist (Suc k))"
    by (simp add: algebra_simps)
  show ?thesis
    unfolding class_variance_def
    by (rule variance_pos [OF w wF k weighted_sum_Suc_le hi])
qed

section \<open>The threshold\<close>

lemma otsu_threshold_cases:
  "(\<exists>k. scanned hist totalPixels k \<and> 0 < class_variance hist totalPixels k) \<longrightarrow>
      scanned hist totalPixels (otsu_threshold hist totalPixels) \<and>
      (\<forall>k. scanned hist totalPixels k \<longrightarrow>
          class_variance hist totalPixels k
            \<le> class_variance hist totalPixels (otsu_threshold hist totalPixels)) \<and>
      (\<forall>k < otsu_threshold hist totalPixels. scanned hist totalPixels k \<longrightarrow>
          class_variance hist totalPixels k
            < class_variance hist totalPixels (otsu_threshold hist totalPixels))"
  "\<not> (\<exists>k. scanned hist totalPixels k \<and> 0 < class_variance hist totalPixels k) \<longrightarrow>
      otsu_threshold hist totalPixels = 128"
proof -
  have a: "0 = cum_weight hist 0" "0 = weighted_sum hist 0" "(0::nat) \<le> 256"
    "\<forall>j < (0::nat). \<not> stops_at hist totalPixels j"
    by simp_all
  have r: "otsu_threshold hist totalPixels
      = otsu_loop hist totalPixels (weighted_sum hist 256) 0 0 0 0 128"
    by (simp add: otsu_threshold_def)
  note spec = otsu_loop_spec [OF a r]
  show "(\<exists>k. scanned hist totalPixels k \<and> 0 < class_variance hist totalPixels k) \<longrightarrow>
      scanned hist totalPixels (otsu_threshold hist totalPixels) \<and>
      (\<forall>k. scanned hist totalPixels k \<longrightarrow>
          class_variance hist totalPixels k
            \<le> class_variance hist totalPixels (otsu_threshold hist totalPixels)) \<and>
      (\<forall>k < otsu_threshold hist totalPixels. scanned hist totalPixels k \<longrightarrow>
          class_variance hist totalPixels k
            < class_variance hist totalPixels (otsu_threshold hist totalPixels))"
    using spec by simp
  show "\<not> (\<exists>k. scanned hist totalPixels k \<and> 0 < class_variance hist totalPixels k) \<longrightarrow>
      otsu_threshold hist totalPixels = 128"
    using spec by simp
qed

lemma otsu_threshold_le: "otsu_threshold hist totalPixels \<le> 255"
proof (cases "\<exists>k. scanned hist totalPixels k \<and> 0 < class_variance hist totalPixels k")
  case True
  then have "scanned hist totalPixels (otsu_threshold hist totalPixels)"
    using otsu_threshold_cases(1) [of hist totalPixels] by blast
  then show ?thesis by (simp add: scanned_iff)
next
  case False
  then show ?thesis using otsu_threshold_cases(2) [of hist totalPixels] by simp
qed

lemma otsu_threshold_fallback:
  "\<forall>k. \<not> scanned hist totalPixels k \<Longrightarrow> otsu_threshold hist totalPixels = 128"
  using otsu_threshold_cases(2) [of hist totalPixels] by blast

section \<open>Histograms of particular buffers\<close>

lemma cum_weight_pos_iff:
  assumes "length ps < 2 ^ 32" "t \<le> 256"
  shows "0 < cum_weight (foldl hist_incr (replicate 256 0) (map gray_of ps)) t
           \<longleftrightarrow> (\<exists>p \<in> set ps. gray_of p < int t)"
  unfolding cum_weight_count [OF assms] by (simp add: filter_empty_conv)

lemma cum_weight_full_iff:
  assumes "length ps < 2 ^ 32" "t \<le> 256"
  shows "cum_weight (foldl hist_incr (replicate 256 0) (map gray_of ps)) t = length ps
           \<longleftrightarrow> (\<forall>p \<in> set ps. gray_of p < int t)"
  unfolding cum_weight_count [OF assms]
  by (metis filter_True filter_id_conv length_filter_less not_less_iff_gr_or_eq)

lemma less_int_Suc: "x < int (Suc k) \<longleftrightarrow> x \<le> int k"
  by auto

lemma stop_test: "0 < n \<Longrightarrow> (0 < c \<and> int n - int c = 0) \<longleftrightarrow> c = n"
  by auto

lemma stops_at_iff:
  assumes "length ps < 2 ^ 32" "k < 256" "ps \<noteq> []"
  shows "stops_at (foldl hist_incr (replicate 256 0) (map gray_of ps)) (length ps) k
           \<longleftrightarrow> (\<forall>p \<in> set ps. gray_of p \<le> int k)"
proof -
  have sk: "Suc k \<le> 256" using assms(2) by simp
  have ne: "0 < length ps" using assms(3) by simp
  have "stops_at (foldl hist_incr (replicate 256 0) (map gray_of ps)) (length ps) k
      \<longleftrightarrow> cum_weight (foldl hist_incr (replicate 256 0) (map gray_of ps)) (Suc k) = length ps"
    unfolding stops_at_def by (rule stop_test [OF ne])
  also have "\<dots> \<longleftrightarrow> (\<forall>p \<in> set ps. gray_of p < int (Suc k))"
    by (rule cum_weight_full_iff [OF assms(1) sk])
  also have "\<dots> \<longleftrightarrow> (\<forall>p \<in> set ps. gray_of p \<le> int k)" by (simp only: less_int_Suc)
  finally show ?thesis .
qed

lemma scanned_image_iff:
  assumes "length ps < 2 ^ 32" "ps \<noteq> []"
  shows "scanned (foldl hist_incr (replicate 256 0) (map gray_of ps)) (length ps) k
           \<longleftrightarrow> k < 256 \<and> (\<exists>p \<in> set ps. gray_of p \<le> int k) \<and> (\<exists>p \<in> set ps. int k < gray_of p)"
proof (cases "k < 256")
  case False
  then show ?thesis by (simp add: scanned_iff)
next
  case True
  define h where "h = foldl hist_incr (replicate 256 (0::32 word)) (map gray_of ps)"
  have sk: "Suc k \<le> 256" using True by simp
  have pos: "0 < cum_weight h (Suc k) \<longleftrightarrow> (\<exists>p \<in> set ps. gray_of p \<le> int k)"
    unfolding h_def cum_weight_pos_iff [OF assms(1) sk] by (simp only: less_int_Suc)
  have st: "\<And>j. j \<le> k \<Longrightarrow> stops_at h (length ps) j \<longleftrightarrow> (\<forall>p \<in> set ps. gray_of p \<le> int j)"
    unfolding h_def using True by (intro stops_at_iff [OF assms(1) _ assms(2)]) simp
  have "(\<forall>j \<le> k. \<not> stops_at h (length ps) j) \<longleftrightarrow> (\<exists>p \<in> set ps. int k < gray_of p)"
  proof
    assume "\<forall>j \<le> k. \<not> stops_at h (length ps) j"
    then have "\<not> stops_at h (length ps) k" by simp
    then show "\<exists>p \<in> set ps. int k < gray_of p" using st [of k] by (auto simp add: not_le)
  next
    assume "\<exists>p \<in> set ps. int k < gray_of p"
    then obtain p where p: "p \<in> set ps" "int k < gray_of p" by blast
    show "\<forall>j \<le> k. \<not> stops_at h (length ps) j"
    proof (intro allI impI)
      fix j assume j: "j \<le> k"
      then have "\<not> gray_of p \<le> int j" using p(2) by simp
      then show "\<not> stops_at h (length ps) j" using st [OF j] p(1) by blast
    qed
  qed
  then show ?thesis using True pos by (simp add: scanned_iff h_def)
qed

lemma uniform_no_candidate:
  assumes "length ps < 2 ^ 32" "ps \<noteq> []" "\<forall>p \<in> set ps. gray_of p = v"
  shows "\<not> scanned (foldl hist_incr (replicate 256 0) (map gray_of ps)) (length ps) k"
  unfolding scanned_image_iff [OF assms(1,2)] using assms(3) by auto

lemma uniform_threshold:
  assumes "length ps < 2 ^ 32" "ps \<noteq> []" "\<forall>p \<in> set ps. gray_of p = v"
  shows "otsu_threshold (foldl hist_incr (replicate 256 0) (map gray_of ps)) (length ps) = 128"
  by (rule otsu_threshold_fallback) (simp add: uniform_no_candidate [OF assms])

lemma zero_bins_const:
  assumes "\<forall>j. a \<le> j \<and> j < b \<longrightarrow> unat (hist ! j) = 0" "a \<le> b"
  shows "cum_weight hist b = cum_weight hist a \<and> weighted_sum hist b = weighted_sum hist a"
  using assms(2,1)
proof (induction b rule: dec_induct)
  case base
  then show ?case by simp
next
  case (step n)
  then show ?case by simp
qed

lemma two_level_threshold:
  assumes len: "length ps < 2 ^ 32"
    and two: "\<forall>p \<in> set ps. gray_of p = int lo \<or> gray_of p = int hi"
    and "lo < hi"
    and ex_lo: "\<exists>p \<in> set ps. gray_of p = int lo"
    and ex_hi: "\<exists>p \<in> set ps. gray_of p = int hi"
  shows "otsu_threshold (foldl hist_incr (replicate 256 0) (map gray_of ps)) (length ps) = lo"
proof -
  define h where "h = foldl hist_incr (replicate 256 (0::32 word)) (map gray_of ps)"
  define T where "T = otsu_threshold h (length ps)"
  have ne: "ps \<noteq> []" using ex_lo by auto
  have hi256: "hi < 256"
  proof -
    obtain p where "p \<in> set ps" "gray_of p = int hi" using ex_hi by blast
    then show ?thesis using gray_of_range [of p] by simp
  qed
  have sc: "\<And>k. scanned h (length ps) k \<longleftrightarrow> lo \<le> k \<and> k < hi"
  proof -
    fix k
    have "scanned h (length ps) k
        \<longleftrightarrow> k < 256 \<and> (\<exists>p \<in> set ps. gray_of p \<le> int k) \<and> (\<exists>p \<in> set ps. int k < gray_of p)"
      unfolding h_def by (rule scanned_image_iff [OF len ne])
    also have "(\<exists>p \<in> set ps. gray_of p \<le> int k) \<longleftrightarrow> lo \<le> k"
      using two ex_lo \<open>lo < hi\<close> by (auto simp add: nat_le_iff) force
    also have "(\<exists>p \<in> set ps. int k < gray_of p) \<longleftrightarrow> k < hi"
      using two ex_hi \<open>lo < hi\<close> by auto force
    finally show "scanned h (length ps) k \<longleftrightarrow> lo \<le> k \<and> k < hi" using hi256 by auto
  qed
  have tot: "length ps = cum_weight h 256" unfolding h_def by (rule cum_weight_total [OF len, symmetric])
  have slo: "scanned h (length ps) lo" using sc \<open>lo < hi\<close> by simp
  have pos: "0 < class_variance h (length ps) lo" by (rule class_variance_pos [OF slo tot])
  have ex: "\<exists>k. scanned h (length ps) k \<and> 0 < class_variance h (length ps) k"
    using slo pos by blast
  have T: "scanned h (length ps) T"
    "\<forall>k < T. scanned h (length ps) k \<longrightarrow> class_variance h (length ps) k < class_variance h (length ps) T"
    using otsu_threshold_cases(1) [of h "length ps"] ex unfolding T_def by blast+
  have rng: "lo \<le> T" "T < hi" using T(1) sc by simp_all
  have zero: "\<forall>j. Suc lo \<le> j \<and> j < Suc T \<longrightarrow> unat (h ! j) = 0"
  proof (intro allI impI)
    fix j assume j: "Suc lo \<le> j \<and> j < Suc T"
    then have j256: "j < 256" and jlo: "lo < j" and jhi: "j < hi" using rng hi256 by simp_all
    have "\<And>p. p \<in> set ps \<Longrightarrow> gray_of p \<noteq> int j" using two jlo jhi by force
    then have "filter (\<lambda>p. gray_of p = int j) ps = []" by (simp add: filter_empty_conv)
    then show "unat (h ! j) = 0" unfolding h_def hist_bin_count [OF len j256] by simp
  qed
  have same: "cum_weight h (Suc T) = cum_weight h (Suc lo)"
    "weighted_sum h (Suc T) = weighted_sum h (Suc lo)"
    using zero_bins_const [OF zero] rng(1) by simp_all
  have eq: "class_variance h (length ps) T = class_variance h (length ps) lo"
    unfolding class_variance_def same ..
  have "\<not> lo < T"
  proof
    assume "lo < T"
    then have "class_variance h (length ps) lo < class_variance h (length ps) T"
      using T(2) slo by blast
    then show False using eq by simp
  qed
  then have "T = lo" using rng(1) by simp
  then show ?thesis by (simp add: T_def h_def)
qed

section \<open>Claims about the Otsu Solver\<close>

lemma luma_127: "luma 127 127 127 = 127"
  by code_simp

lemma res_threshold_eq:
  "res_threshold (process_pixels data)
     = otsu_threshold (foldl hist_incr (replicate 256 0) (map gray_of data)) (length data)"
  by (simp add: process_pixels_eq Let_def)

text \<open>
  Claim C2. For every buffer the Otsu Solver returns a threshold in \<open>0..255\<close>; when no
  candidate is scanned (no valid split) it returns the fallback 128; on a buffer of at
  least one pixel whose pixels all have the same gray value the threshold is 128.
\<close>

theorem otsu_threshold_range:
  "res_threshold (process_pixels data) \<le> 255
   \<and> otsu_threshold hist totalPixels \<le> 255
   \<and> ((\<forall>k. \<not> scanned hist totalPixels k) \<longrightarrow> otsu_threshold hist totalPixels = 128)
   \<and> (data \<noteq> [] \<and> length data < 2 ^ 32 \<and> (\<forall>p \<in> set data. gray_of p = v) \<longrightarrow>
         res_threshold (process_pixels data) = 128)"
  using otsu_threshold_le otsu_threshold_fallback [of hist totalPixels]
    uniform_threshold [of data v]
  by (simp add: res_threshold_eq)

theorem otsu_threshold_range_witness:
  "[RGBA 127 127 127 255, RGBA 127 127 127 0] \<noteq> []
   \<and> length [RGBA 127 127 127 255, RGBA 127 127 127 0] < (2::nat) ^ 32
   \<and> gray_of (RGBA 127 127 127 255) = 127
   \<and> gray_of (RGBA 127 127 127 0) = 127
   \<and> res_threshold (process_pixels [RGBA 127 127 127 255, RGBA 127 127 127 0]) = 128"
proof -
  have g: "gray_of (RGBA 127 127 127 255) = 127" "gray_of (RGBA 127 127 127 0) = 127"
    by (simp_all add: gray_of_def luma_127)
  have a: "[RGBA 127 127 127 255, RGBA 127 127 127 0] \<noteq> []" by simp
  have b: "length [RGBA 127 127 127 255, RGBA 127 127 127 0] < (2::nat) ^ 32" by simp
  have c: "\<forall>p \<in> set [RGBA 127 127 127 255, RGBA 127 127 127 0]. gray_of p = 127"
    by (simp add: gray_of_def luma_127)
  from otsu_threshold_range [of "[RGBA 127 127 127 255, RGBA 127 127 127 0]" "[]" 0 127] a b c g
  show ?thesis by blast
qed

text \<open>
  Claim C3. For a histogram of 256 bins whose bins sum to a positive pixel count, the
  candidates the loop compares are those with a background class that is not empty,
  before the first candidate with an empty foreground class. If there is one, the Otsu
  Solver returns the smallest of them at which the between-class variance
  \<open>wB * wF * (mB - mF) ** 2\<close>, computed in binary64 from the cumulative sums, is
  largest; if there is none it returns 128.
\<close>

theorem otsu_first_maximum:
  assumes "length hist = 256" and "0 < totalPixels" and "totalPixels = cum_weight hist 256"
  shows "((\<exists>k. scanned hist totalPixels k) \<longrightarrow>
            scanned hist totalPixels (otsu_threshold hist totalPixels)
            \<and> (\<forall>k. scanned hist totalPixels k \<longrightarrow>
                  class_variance hist totalPixels k
                    \<le> class_variance hist totalPixels (otsu_threshold hist totalPixels))
            \<and> (\<forall>k < otsu_threshold hist totalPixels. scanned hist totalPixels k \<longrightarrow>
                  class_variance hist totalPixels k
                    < class_variance hist totalPixels (otsu_threshold hist totalPixels)))
       \<and> ((\<forall>k. \<not> scanned hist totalPixels k) \<longrightarrow> otsu_threshold hist totalPixels = 128)
       \<and> (\<forall>k. scanned hist totalPixels k \<longleftrightarrow>
             k < 256 \<and> 0 < cum_weight hist (Suc k) \<and> (\<forall>j \<le> k. \<not> stops_at hist totalPixels j))
       \<and> (\<forall>k. class_variance hist totalPixels k =
             fmul (fmul (of_nat (cum_weight hist (Suc k)))
                        (of_int (int totalPixels - int (cum_weight hist (Suc k)))))
                  (fsq (fsub (fdiv (of_nat (weighted_sum hist (Suc k)))
                                   (of_nat (cum_weight hist (Suc k))))
                             (fdiv (of_int (int (weighted_sum hist 256)
                                             - int (weighted_sum hist (Suc k))))
                                   (of_int (int totalPixels - int (cum_weight hist (Suc k))))))))"
proof -
  have pos: "\<And>k. scanned hist totalPixels k \<Longrightarrow> 0 < class_variance hist totalPixels k"
    by (rule class_variance_pos [OF _ assms(3)])
  have ex: "(\<exists>k. scanned hist totalPixels k)
      \<longleftrightarrow> (\<exists>k. scanned hist totalPixels k \<and> 0 < class_variance hist totalPixels k)"
    using pos by blast
  have cv: "\<And>k. class_variance hist totalPixels k =
             fmul (fmul (of_nat (cum_weight hist (Suc k)))
                        (of_int (int totalPixels - int (cum_weight hist (Suc k)))))
                  (fsq (fsub (fdiv (of_nat (weighted_sum hist (Suc k)))
                                   (of_nat (cum_weight hist (Suc k))))
                             (fdiv (of_int (int (weighted_sum hist 256)
                                             - int (weighted_sum hist (Suc k))))
                                   (of_int (int totalPixels - int (cum_weight hist (Suc k)))))))"
    by (simp only: class_variance_def variance_def Let_def)
  show ?thesis
    using otsu_threshold_cases(1) [of hist totalPixels] otsu_threshold_fallback [of hist totalPixels]
      scanned_iff [of hist totalPixels] cv
    unfolding ex [symmetric]
    by blast
qed

lemma hist_two_bins:
  "cum_weight ((replicate 256 0) [127 := 1, 255 := 1]) 256 = 2"
  "scanned ((replicate 256 0) [127 := 1, 255 := 1]) 2 127"
  "length ((replicate 256 (0::32 word)) [127 := 1, 255 := 1]) = 256"
  by code_simp+

theorem otsu_first_maximum_witness:
  "length ((replicate 256 (0::32 word)) [127 := 1, 255 := 1]) = 256
   \<and> (0::nat) < 2
   \<and> 2 = cum_weight ((replicate 256 0) [127 := 1, 255 := 1]) 256
   \<and> scanned ((replicate 256 0) [127 := 1, 255 := 1]) 2 127
   \<and> scanned ((replicate 256 0) [127 := 1, 255 := 1]) 2
        (otsu_threshold ((replicate 256 0) [127 := 1, 255 := 1]) 2)"
proof -
  have a: "length ((replicate 256 (0::32 word)) [127 := 1, 255 := 1]) = 256"
    by (rule hist_two_bins(3))
  have b: "(0::nat) < 2" by simp
  have c: "2 = cum_weight ((replicate 256 0) [127 := 1, 255 := 1]) 256"
    by (rule hist_two_bins(1) [symmetric])
  from otsu_first_maximum [OF a b c] hist_two_bins(2) a b c
  show ?thesis by blast
qed

section \<open>Uniform buffers\<close>

lemma uniform_process:
  assumes "data \<noteq> []" "length data < 2 ^ 32" "\<forall>p \<in> set data. gray_of p = v"
    and "v \<le> 128"
  shows "res_threshold (process_pixels data) = 128
       \<and> map (spec_bw_pixel 128) (map spec_gray_pixel data) = map (\<lambda>p. RGBA 0 0 0 (alpha p)) data
       \<and> res_whiteCount (process_pixels data) = 0
       \<and> res_blackCount (process_pixels data) = int (length data)
       \<and> res_inverted (process_pixels data)
       \<and> res_data (process_pixels data) = map (\<lambda>p. RGBA 255 255 255 (alpha p)) data
       \<and> count_white (res_data (process_pixels data)) = length data
       \<and> count_black (res_data (process_pixels data)) = 0"
proof -
  have thr: "otsu_threshold (foldl hist_incr (replicate 256 0) (map gray_of data)) (length data) = 128"
    by (rule uniform_threshold [OF assms(2,1,3)])
  have dark: "\<And>p. p \<in> set data \<Longrightarrow> spec_bw_pixel 128 (spec_gray_pixel p) = RGBA 0 0 0 (alpha p)"
  proof -
    fix p assume "p \<in> set data"
    then have "gray_of p = v" using assms(3) by simp
    then have "\<not> 128 < unat (red (spec_gray_pixel p))"
      using assms(4) by (simp add: unat_red_gray_pixel)
    then show "spec_bw_pixel 128 (spec_gray_pixel p) = RGBA 0 0 0 (alpha p)"
      by (simp add: spec_bw_pixel_def spec_gray_pixel_def)
  qed
  have bin: "map (spec_bw_pixel 128) (map spec_gray_pixel data) = map (\<lambda>p. RGBA 0 0 0 (alpha p)) data"
    using dark by simp
  have cw: "count_white (map (\<lambda>p. RGBA 0 0 0 (alpha p)) data) = 0"
    by (induction data) (simp_all add: count_white_def is_white_def)
  have cb: "count_black (map (\<lambda>p. RGBA 0 0 0 (alpha p)) data) = length data"
    by (induction data) (simp_all add: count_black_def is_black_def)
  have inv: "map spec_invert_pixel (map (\<lambda>p. RGBA 0 0 0 (alpha p)) data)
      = map (\<lambda>p. RGBA 255 255 255 (alpha p)) data"
    by (simp add: spec_invert_pixel_def)
  have cw2: "count_white (map (\<lambda>p. RGBA 255 255 255 (alpha p)) data) = length data"
    by (induction data) (simp_all add: count_white_def is_white_def)
  have cb2: "count_black (map (\<lambda>p. RGBA 255 255 255 (alpha p)) data) = 0"
    by (induction data) (simp_all add: count_black_def is_black_def)
  have pos: "0 < length data" using assms(1) by simp
  show ?thesis
    unfolding process_pixels_eq Let_def thr bin
    using pos by (simp add: cw cb inv cw2 cb2 del: map_map)
qed

lemma scale_100: "scale_factor 100 100 = Some 20"
proof -
  have "scale_factor 100 100 = Some (nat \<lceil>(2000::rat) / of_nat (max 100 100)\<rceil>)"
    by (rule scale_factor_small) simp_all
  then show ?thesis by simp
qed

text \<open>
  Claim C9. A 100 by 100 image is scaled by 20, so the passes run on a buffer of
  2000 by 2000 pixels. On a buffer whose pixels all have gray value 127 the threshold is
  the fallback 128, binarization turns every pixel black, the white count is 0 and the
  black count is the number of pixels of the buffer: 4000000 for the canvas of a 100 by
  100 image, 10000 for a buffer of 10000 pixels. The polarity correction then inverts,
  and the final buffer is entirely white.
\<close>

theorem mid_gray_scenario:
  assumes "\<forall>p \<in> set data. gray_of p = 127"
    and "length data = 10000
         \<or> length data = canvas_dim 100 (scale_factor 100 100) * canvas_dim 100 (scale_factor 100 100)"
  shows "canvas_dim 100 (scale_factor 100 100) = 2000
       \<and> res_threshold (process_pixels data) = 128
       \<and> map (spec_bw_pixel 128) (map spec_gray_pixel data) = map (\<lambda>p. RGBA 0 0 0 (alpha p)) data
       \<and> res_whiteCount (process_pixels data) = 0
       \<and> res_blackCount (process_pixels data) = int (length data)
       \<and> (length data = canvas_dim 100 (scale_factor 100 100) * canvas_dim 100 (scale_factor 100 100)
            \<longrightarrow> res_blackCount (process_pixels data) = 4000000)
       \<and> (length data = 10000 \<longrightarrow> res_blackCount (process_pixels data) = 10000)
       \<and> res_inverted (process_pixels data)
       \<and> res_data (process_pixels data) = map (\<lambda>p. RGBA 255 255 255 (alpha p)) data
       \<and> count_white (res_data (process_pixels data)) = length data
       \<and> count_black (res_data (process_pixels data)) = 0"
proof -
  have cd: "canvas_dim 100 (scale_factor 100 100) = 2000"
    by (simp add: scale_100 canvas_dim_def)
  have len: "length data = 10000 \<or> length data = 4000000" using assms(2) by (simp add: cd)
  then have ne: "data \<noteq> []" and small: "length data < 2 ^ 32" by auto
  have v: "(127::int) \<le> 128" by simp
  note u = uniform_process [OF ne small assms(1) v]
  from u have bc: "res_blackCount (process_pixels data) = int (length data)" by blast
  have c1: "length data = canvas_dim 100 (scale_factor 100 100) * canvas_dim 100 (scale_factor 100 100)
      \<longrightarrow> res_blackCount (process_pixels data) = 4000000"
    unfolding cd bc by simp
  have c2: "length data = 10000 \<longrightarrow> res_blackCount (process_pixels data) = 10000"
    unfolding bc by simp
  show ?thesis using u cd c1 c2 by blast
qed

theorem mid_gray_scenario_witness:
  "gray_of (RGBA 127 127 127 255) = 127
   \<and> length (replicate 10000 (RGBA 127 127 127 255)) = 10000
   \<and> res_threshold (process_pixels (replicate 10000 (RGBA 127 127 127 255))) = 128
   \<and> res_blackCount (process_pixels (replicate 10000 (RGBA 127 127 127 255))) = 10000
   \<and> res_data (process_pixels (replicate 10000 (RGBA 127 127 127 255)))
        = map (\<lambda>p. RGBA 255 255 255 (alpha p)) (replicate 10000 (RGBA 127 127 127 255))"
proof -
  have a: "\<forall>p \<in> set (replicate 10000 (RGBA 127 127 127 255)). gray_of p = 127"
    by (simp add: gray_of_def luma_127)
  have b: "length (replicate 10000 (RGBA 127 127 127 255)) = 10000" by simp
  have g: "gray_of (RGBA 127 127 127 255) = 127" by (simp add: gray_of_def luma_127)
  from mid_gray_scenario [OF a disjI1 [OF b]] g b show ?thesis by blast
qed

text \<open>
  Claim C9 as stated: for a 100 by 100 image the black count is not 10000, since
  the canvas of a 100 by 100 image has 2000 by 2000 pixels.
\<close>

theorem mid_gray_image_counterexample:
  "res_blackCount (process_pixels
      (replicate (canvas_dim 100 (scale_factor 100 100) * canvas_dim 100 (scale_factor 100 100))
         (RGBA 127 127 127 255))) \<noteq> 10000"
proof -
  have cd: "canvas_dim 100 (scale_factor 100 100) = 2000"
    by (simp add: scale_100 canvas_dim_def)
  have a: "\<forall>p \<in> set (replicate (2000 * 2000) (RGBA 127 127 127 255)). gray_of p = 127"
    by (simp add: gray_of_def luma_127)
  have ne: "replicate (2000 * 2000) (RGBA 127 127 127 255) \<noteq> []" by simp
  have small: "length (replicate (2000 * 2000) (RGBA 127 127 127 255)) < 2 ^ 32" by simp
  have v: "(127::int) \<le> 128" by simp
  have "res_blackCount (process_pixels (replicate (2000 * 2000) (RGBA 127 127 127 255)))
      = int (length (replicate (2000 * 2000) (RGBA 127 127 127 255)))"
    using uniform_process [OF ne small a v] by blast
  then show ?thesis unfolding cd by simp
qed

section \<open>The output of the pipeline is not scaled again\<close>

lemma canvas_longer_side:
  assumes "0 < w" "0 < h"
  shows "2000 \<le> max (canvas_dim w (scale_factor w h)) (canvas_dim h (scale_factor w h))"
proof (cases "max w h < 2000")
  case True
  have m0: "0 < max w h" using assms by simp
  have "2000 \<le> max w h * nat \<lceil>(2000::rat) / of_nat (max w h)\<rceil>"
    by (rule ceil_covers [OF m0])
  then show ?thesis
    by (simp add: scale_factor_small [OF m0 True] canvas_dim_def max_mult_right)
next
  case False
  have big: "2000 \<le> max w h" using False by (simp only: not_less)
  have "max (canvas_dim w (Some 1)) (canvas_dim h (Some 1)) = max w h"
    by (simp add: canvas_dim_def)
  then show ?thesis using big by (simp only: scale_factor_large [OF False])
qed

lemma second_run_not_scaled:
  assumes "0 < w" "0 < h"
  shows "scale_factor (canvas_dim w (scale_factor w h)) (canvas_dim h (scale_factor w h)) = Some 1"
proof (rule scale_factor_large)
  show "\<not> max (canvas_dim w (scale_factor w h)) (canvas_dim h (scale_factor w h)) < 2000"
    using canvas_longer_side [OF assms] by (simp only: not_less)
qed

section \<open>Running the passes on their own output\<close>

lemma bw_or_inverted_cases:
  "(is_black (spec_bw_pixel thr p) \<and> \<not> is_white (spec_bw_pixel thr p))
   \<or> (is_white (spec_bw_pixel thr p) \<and> \<not> is_black (spec_bw_pixel thr p))"
  "(is_black (spec_invert_pixel (spec_bw_pixel thr p))
      \<and> \<not> is_white (spec_invert_pixel (spec_bw_pixel thr p)))
   \<or> (is_white (spec_invert_pixel (spec_bw_pixel thr p))
      \<and> \<not> is_black (spec_invert_pixel (spec_bw_pixel thr p)))"
  by (simp_all add: spec_bw_pixel_def spec_invert_pixel_def is_black_def is_white_def)

lemma res_data_two_level:
  "\<forall>p \<in> set (res_data (process_pixels data)). is_black p \<or> is_white p"
  using bw_or_inverted_cases by (auto simp add: process_pixels_eq Let_def)

lemma res_data_length: "length (res_data (process_pixels data)) = length data"
  by (simp add: process_pixels_eq Let_def)

lemma res_data_polarity:
  "count_black (res_data (process_pixels data)) \<le> count_white (res_data (process_pixels data))"
  by (simp add: process_pixels_eq Let_def count_white_inv_bw count_black_inv_bw del: map_map)

lemma gray_of_black: "is_black p \<Longrightarrow> gray_of p = 0"
  by (simp add: is_black_def gray_of_def luma_0)

lemma gray_of_white: "is_white p \<Longrightarrow> gray_of p = 255"
  by (simp add: is_white_def gray_of_def luma_255)

lemma spec_gray_pixel_two_level: "is_black p \<or> is_white p \<Longrightarrow> spec_gray_pixel p = p"
  by (cases p) (auto simp add: spec_gray_pixel_def gray_of_black gray_of_white
      is_black_def is_white_def)

lemma spec_bw_pixel_two_level:
  "is_black p \<or> is_white p \<Longrightarrow> thr < 255 \<Longrightarrow> spec_bw_pixel thr p = p"
  by (cases p) (auto simp add: spec_bw_pixel_def is_black_def is_white_def)

lemma empty_threshold: "otsu_threshold (replicate 256 0) 0 = 128"
proof (rule otsu_threshold_fallback, rule allI)
  fix k
  have "cum_weight (replicate 256 0) t = 0" if "t \<le> 256" for t
    using that by (induction t) simp_all
  then show "\<not> scanned (replicate 256 0) 0 k"
    by (simp add: scanned_iff del: cum_weight.simps)
qed

lemma two_level_process:
  assumes bw: "\<forall>p \<in> set B. is_black p \<or> is_white p"
    and len: "length B < 2 ^ 32"
    and pol: "count_black B \<le> count_white B"
  shows "res_data (process_pixels B) = B
       \<and> res_threshold (process_pixels B) = (if count_black B = 0 then 128 else 0)
       \<and> res_whiteCount (process_pixels B) = count_white B
       \<and> res_blackCount (process_pixels B) = int (count_black B)
       \<and> \<not> res_inverted (process_pixels B)"
proof -
  define h where "h = foldl hist_incr (replicate 256 (0::32 word)) (map gray_of B)"
  define T where "T = otsu_threshold h (length B)"
  have gray: "map spec_gray_pixel B = B"
    using bw by (simp add: map_idI spec_gray_pixel_two_level)
  have T: "T = (if count_black B = 0 then 128 else 0)"
  proof (cases "count_black B = 0")
    case True
    then have nb: "\<And>p. p \<in> set B \<Longrightarrow> \<not> is_black p"
      by (simp add: count_black_def filter_empty_conv)
    then have w: "\<forall>p \<in> set B. gray_of p = 255" using bw gray_of_white by blast
    have "T = 128"
    proof (cases "B = []")
      case True
      then show ?thesis by (simp add: T_def h_def empty_threshold)
    next
      case False
      then show ?thesis unfolding T_def h_def by (rule uniform_threshold [OF len _ w])
    qed
    then show ?thesis using True by simp
  next
    case False
    then obtain p where p: "p \<in> set B" "is_black p"
      by (auto simp add: count_black_def filter_empty_conv)
    have "0 < count_white B" using False pol by simp
    then obtain q where q: "q \<in> set B" "is_white q"
      by (auto simp add: count_white_def filter_empty_conv)
    have two: "\<forall>p \<in> set B. gray_of p = int 0 \<or> gray_of p = int 255"
      using bw gray_of_black gray_of_white by auto
    have lo: "\<exists>p \<in> set B. gray_of p = int 0" using p gray_of_black by auto
    have hi: "\<exists>p \<in> set B. gray_of p = int 255" using q gray_of_white by auto
    have "T = 0" unfolding T_def h_def
      by (rule two_level_threshold [OF len two _ lo hi]) simp
    then show ?thesis using False by simp
  qed
  then have T255: "T < 255" by (simp split: if_splits)
  have bin: "map (spec_bw_pixel T) B = B"
    using bw T255 by (simp add: map_idI spec_bw_pixel_two_level)
  have ni: "\<not> int (count_white B) < int (count_black B)" using pol by simp
  show ?thesis
    unfolding process_pixels_eq Let_def gray h_def [symmetric] T_def [symmetric] bin
    using ni T by simp
qed

text \<open>
  Claim C8. Running the passes on their own output returns the same buffer, so the white
  and black pixel counts do not change, and nothing is inverted. The threshold of the
  second run is 0 when the output has a black pixel and 128 otherwise, whatever the
  threshold of the first run was; a third run repeats the second in every variable.
\<close>

theorem rerun_stable:
  assumes "length data < 2 ^ 32"
  shows "(let r1 = process_pixels data;
              r2 = process_pixels (res_data r1);
              r3 = process_pixels (res_data r2)
          in res_data r2 = res_data r1
           \<and> res_whiteCount r2 = count_white (res_data r1)
           \<and> res_blackCount r2 = int (count_black (res_data r1))
           \<and> \<not> res_inverted r2
           \<and> res_threshold r2 = (if count_black (res_data r1) = 0 then 128 else 0)
           \<and> r3 = r2)"
proof -
  define B where "B = res_data (process_pixels data)"
  have bw: "\<forall>p \<in> set B. is_black p \<or> is_white p" unfolding B_def by (rule res_data_two_level)
  have len: "length B < 2 ^ 32" unfolding B_def using assms by (simp add: res_data_length)
  have pol: "count_black B \<le> count_white B" unfolding B_def by (rule res_data_polarity)
  note t = two_level_process [OF bw len pol]
  from t have d: "res_data (process_pixels B) = B" by blast
  show ?thesis unfolding Let_def B_def [symmetric] d using t by simp
qed

theorem rerun_stable_witness:
  "length (replicate 1000 (RGBA 127 127 127 255) @ replicate 1000 (RGBA 255 255 255 255))
     < (2::nat) ^ 32
   \<and> res_data (process_pixels (res_data (process_pixels
        (replicate 1000 (RGBA 127 127 127 255) @ replicate 1000 (RGBA 255 255 255 255)))))
      = res_data (process_pixels
        (replicate 1000 (RGBA 127 127 127 255) @ replicate 1000 (RGBA 255 255 255 255)))"
proof -
  have a: "length (replicate 1000 (RGBA 127 127 127 255) @ replicate 1000 (RGBA 255 255 255 255))
      < (2::nat) ^ 32" by simp
  from rerun_stable [OF a] a show ?thesis unfolding Let_def by blast
qed

text \<open>
  A 2000 by 1 image (not scaled: its longer side is 2000) whose left half has gray value
  127 and whose right half is white.
\<close>

lemma first_run_example:
  "res_threshold (process_pixels
      (replicate 1000 (RGBA 127 127 127 255) @ replicate 1000 (RGBA 255 255 255 255))) = 127"
  "res_data (process_pixels
      (replicate 1000 (RGBA 127 127 127 255) @ replicate 1000 (RGBA 255 255 255 255)))
     = replicate 1000 (RGBA 0 0 0 255) @ replicate 1000 (RGBA 255 255 255 255)"
proof -
  let ?d = "replicate 1000 (RGBA 127 127 127 255) @ replicate 1000 (RGBA 255 255 255 255)"
  let ?B = "replicate 1000 (RGBA 0 0 0 255) @ replicate 1000 (RGBA 255 255 255 255)"
  have g: "gray_of (RGBA 127 127 127 255) = 127" "gray_of (RGBA 255 255 255 255) = 255"
    by (simp_all add: gray_of_def luma_127 luma_255)
  have len: "length ?d < 2 ^ 32" by simp
  have two: "\<forall>p \<in> set ?d. gray_of p = int 127 \<or> gray_of p = int 255" using g by auto
  have lo: "\<exists>p \<in> set ?d. gray_of p = int 127" using g by simp
  have hi: "\<exists>p \<in> set ?d. gray_of p = int 255" using g by simp
  have T: "otsu_threshold (foldl hist_incr (replicate 256 0) (map gray_of ?d)) (length ?d) = 127"
    by (rule two_level_threshold [OF len two _ lo hi]) simp
  show "res_threshold (process_pixels ?d) = 127"
    unfolding res_threshold_eq by (rule T)
  have sg: "map spec_gray_pixel ?d = ?d"
    by (simp add: spec_gray_pixel_def g)
  have bin: "map (spec_bw_pixel 127) ?d = ?B"
    by (simp add: spec_bw_pixel_def)
  have c: "count_white ?B = 1000" "count_black ?B = 1000"
    by (simp_all add: count_white_def count_black_def is_white_def is_black_def)
  show "res_data (process_pixels ?d) = ?B"
    unfolding process_pixels_eq Let_def T sg bin c by simp
qed

text \<open>
  Claim C8 as stated: on this image the first run chooses the threshold 127 and the
  run on its output chooses 0.
\<close>

theorem rerun_threshold_counterexample:
  "res_threshold (process_pixels
      (replicate 1000 (RGBA 127 127 127 255) @ replicate 1000 (RGBA 255 255 255 255))) = 127
   \<and> res_threshold (process_pixels (res_data (process_pixels
      (replicate 1000 (RGBA 127 127 127 255) @ replicate 1000 (RGBA 255 255 255 255))))) = 0"
proof -
  let ?B = "replicate 1000 (RGBA 0 0 0 255) @ replicate 1000 (RGBA 255 255 255 255)"
  have bw: "\<forall>p \<in> set ?B. is_black p \<or> is_white p"
    by (auto simp add: is_black_def is_white_def)
  have len: "length ?B < 2 ^ 32" by simp
  have c: "count_white ?B = 1000" "count_black ?B = 1000"
    by (simp_all add: count_white_def count_black_def is_white_def is_black_def)
  have pol: "count_black ?B \<le> count_white ?B" by (simp add: c)
  have "res_threshold (process_pixels ?B) = (if count_black ?B = 0 then 128 else 0)"
    using two_level_process [OF bw len pol] by blast
  then have "res_threshold (process_pixels ?B) = 0" by (simp add: c)
  then show ?thesis by (simp only: first_run_example)
qed

section \<open>The orchestrator\<close>

lemma preprocessForOcr_decode_failure:
  "decode env imageBytes = None \<Longrightarrow> preprocessForOcr env imageBytes = Resolved imageBytes"
  by (simp add: preprocessForOcr_def)

lemma preprocessForOcr_no_context:
  "\<not> context2d env \<Longrightarrow> preprocessForOcr env imageBytes = Resolved imageBytes"
  by (simp add: preprocessForOcr_def split: option.splits)

lemma preprocessForOcr_canvas_failure:
  "decode env imageBytes = Some img \<Longrightarrow>
   getImageData env img
     (canvas_dim (img_width img) (scale_factor (img_width img) (img_height img)))
     (canvas_dim (img_height img) (scale_factor (img_width img) (img_height img))) = None \<Longrightarrow>
   preprocessForOcr env imageBytes = Resolved imageBytes"
  by (simp add: preprocessForOcr_def Let_def)

lemma preprocessForOcr_never_rejected: "preprocessForOcr env imageBytes \<noteq> Rejected"
  by (simp add: preprocessForOcr_def Let_def split: option.splits blob_result.splits)

lemma preprocessForOcr_null_blob:
  "decode env imageBytes = Some img \<Longrightarrow> context2d env \<Longrightarrow>
   getImageData env img
     (canvas_dim (img_width img) (scale_factor (img_width img) (img_height img)))
     (canvas_dim (img_height img) (scale_factor (img_width img) (img_height img))) = Some data \<Longrightarrow>
   toBlob env
     (canvas_dim (img_width img) (scale_factor (img_width img) (img_height img)))
     (canvas_dim (img_height img) (scale_factor (img_width img) (img_height img)))
     (res_data (process_pixels data)) = BlobNull \<Longrightarrow>
   preprocessForOcr env imageBytes = NeverSettled"
  by (simp add: preprocessForOcr_def Let_def)

text \<open>
  Claim C1. The promise is never rejected, and a failure to decode, to get the context
  or to read the canvas resolves it with the input bytes (the four lemmas above). When
  \<^verbatim>\<open>toBlob\<close> calls back with \<^verbatim>\<open>null\<close>, the encode failure of the claim, the promise is
  never settled: here for a black image of 2000 by 1 pixels.
\<close>

theorem encode_failure_never_settles:
  "preprocessForOcr
     \<lparr>decode = (\<lambda>b. Some \<lparr>img_width = 2000, img_height = 1,
                           img_bitmap = replicate 2000 (RGBA 0 0 0 255)\<rparr>),
      context2d = True,
      getImageData = (\<lambda>img cw ch. Some (img_bitmap img)),
      toBlob = (\<lambda>cw ch ps. BlobNull)\<rparr>
     [137, 80, 78, 71]
   = NeverSettled
   \<and> NeverSettled \<noteq> Resolved [137, 80, 78, 71]"
  by (simp add: preprocessForOcr_def Let_def)

section \<open>Evaluating a binary64 rounding at a given exponent\<close>

lemma ilog2_unique:
  assumes "2 powi e \<le> x" "x < 2 powi (e + 1)"
  shows "ilog2 x = e"
proof -
  have x0: "0 < x" using assms(1) powi_pos [of e] by linarith
  have b: "2 powi (ilog2 x) \<le> x" "x < 2 powi (ilog2 x + 1)"
    using ilog2_bounds [OF x0] by simp_all
  have "\<not> ilog2 x < e"
  proof
    assume "ilog2 x < e"
    then have "ilog2 x + 1 \<le> e" by simp
    then have "(2::rat) powi (ilog2 x + 1) \<le> 2 powi e" by (intro power_int_increasing) simp_all
    then show False using b(2) assms(1) by linarith
  qed
  moreover have "\<not> e < ilog2 x"
  proof
    assume "e < ilog2 x"
    then have "e + 1 \<le> ilog2 x" by simp
    then have "(2::rat) powi (e + 1) \<le> 2 powi (ilog2 x)" by (intro power_int_increasing) simp_all
    then show False using b(1) assms(2) by linarith
  qed
  ultimately show ?thesis by simp
qed

lemma round_even_near:
  assumes "\<bar>y - of_int n\<bar> < 1 / 2"
  shows "round_even y = n"
proof -
  have "\<bar>rat_of_int (round_even y) - of_int n\<bar> < 1"
    using round_even_error [of y] assms by linarith
  then have "\<bar>rat_of_int (round_even y - n)\<bar> < rat_of_int 1" by simp
  then have "\<bar>round_even y - n\<bar> < 1" by (simp only: of_int_abs [symmetric] of_int_less_iff)
  then show ?thesis by simp
qed

lemma round_even_tie_down:
  assumes "y = of_int n + 1 / 2" "even n"
  shows "round_even y = n"
proof -
  have f: "\<lfloor>y\<rfloor> = n" by (rule floor_unique) (simp_all add: assms(1))
  have "y - of_int \<lfloor>y\<rfloor> = 1 / 2" unfolding f using assms(1) by simp
  then show ?thesis using assms(2) by (simp add: round_even_def Let_def f)
qed

lemma fl_eval:
  assumes "2 powi e \<le> \<bar>x\<bar>" and "\<bar>x\<bar> < 2 powi (e + 1)"
    and "round_even (x / 2 powi (e - 52)) = n" and "of_int n * 2 powi (e - 52) = r"
  shows "fl x = r"
proof -
  have e: "ilog2 \<bar>x\<bar> = e" by (rule ilog2_unique [OF assms(1,2)])
  have "0 < \<bar>x\<bar>" using assms(1) powi_pos [of e] by linarith
  then have x: "x \<noteq> 0" by simp
  show ?thesis using x assms(3,4) by (simp add: fl_def Let_def e)
qed

lemma ex_mF0: "fdiv 250000 1500 = (5864062014805333 / 35184372088832)"
  unfolding fdiv_def
  apply (rule fl_eval [where e = "7" and n = "5864062014805333"])
     apply (simp add: power_int_minus)
    apply (simp add: power_int_minus)
   apply (rule round_even_near)
   apply (simp_all add: power_int_minus)
  done

lemma ex_d0: "fsub 0 (5864062014805333 / 35184372088832) = (- (5864062014805333 / 35184372088832))"
  unfolding fsub_def
  apply (rule fl_eval [where e = "7" and n = "-5864062014805333"])
     apply (simp add: power_int_minus)
    apply (simp add: power_int_minus)
   apply (rule round_even_near)
   apply (simp_all add: power_int_minus)
  done

lemma ex_sq0: "fsq (- (5864062014805333 / 35184372088832)) = (3817748707555555 / 137438953472)"
  unfolding fsq_def
  apply (rule fl_eval [where e = "14" and n = "7635497415111110"])
     apply (simp add: power_int_minus)
    apply (simp add: power_int_minus)
   apply (rule round_even_near)
   apply (simp_all add: power_int_minus)
  done

lemma ex_w0: "fmul 500 1500 = 750000"
  unfolding fmul_def
  apply (rule fl_eval [where e = "19" and n = "6442450944000000"])
     apply (simp add: power_int_minus)
    apply (simp add: power_int_minus)
   apply (rule round_even_near)
   apply (simp_all add: power_int_minus)
  done

lemma ex_v0: "fmul 750000 (3817748707555555 / 137438953472) = (5461333333333333 / 262144)"
  unfolding fmul_def
  apply (rule fl_eval [where e = "34" and n = "5461333333333333"])
     apply (simp add: power_int_minus)
    apply (simp add: power_int_minus)
   apply (rule round_even_near)
   apply (simp_all add: power_int_minus)
  done

lemma ex_mB1: "fdiv 125000 1500 = (5864062014805333 / 70368744177664)"
  unfolding fdiv_def
  apply (rule fl_eval [where e = "6" and n = "5864062014805333"])
     apply (simp add: power_int_minus)
    apply (simp add: power_int_minus)
   apply (rule round_even_near)
   apply (simp_all add: power_int_minus)
  done

lemma ex_mF1: "fdiv 125000 500 = 250"
  unfolding fdiv_def
  apply (rule fl_eval [where e = "7" and n = "8796093022208000"])
     apply (simp add: power_int_minus)
    apply (simp add: power_int_minus)
   apply (rule round_even_near)
   apply (simp_all add: power_int_minus)
  done

lemma ex_d1: "fsub (5864062014805333 / 70368744177664) 250 = (- (2932031007402667 / 17592186044416))"
  unfolding fsub_def
  apply (rule fl_eval [where e = "7" and n = "-5864062014805334"])
     apply (simp add: power_int_minus)
    apply (simp add: power_int_minus)
   apply (rule round_even_tie_down)
   apply (simp_all add: power_int_minus)
  done

lemma ex_sq1: "fsq (- (2932031007402667 / 17592186044416)) = (7635497415111113 / 274877906944)"
  unfolding fsq_def
  apply (rule fl_eval [where e = "14" and n = "7635497415111113"])
     apply (simp add: power_int_minus)
    apply (simp add: power_int_minus)
   apply (rule round_even_near)
   apply (simp_all add: power_int_minus)
  done

lemma ex_w1: "fmul 1500 500 = 750000"
  unfolding fmul_def
  apply (rule fl_eval [where e = "19" and n = "6442450944000000"])
     apply (simp add: power_int_minus)
    apply (simp add: power_int_minus)
   apply (rule round_even_near)
   apply (simp_all add: power_int_minus)
  done

lemma ex_v1: "fmul 750000 (7635497415111113 / 274877906944) = (5461333333333335 / 262144)"
  unfolding fmul_def
  apply (rule fl_eval [where e = "34" and n = "5461333333333335"])
     apply (simp add: power_int_minus)
    apply (simp add: power_int_minus)
   apply (rule round_even_near)
   apply (simp_all add: power_int_minus)
  done

section \<open>A histogram whose exact variances tie\<close>

lemma tie_hist_nth:
  "j < 256 \<Longrightarrow> unat (tie_hist ! j)
     = (if j = 250 then 500 else if j = 125 then 1000 else if j = 0 then 500 else 0)"
  by (simp add: tie_hist_def nth_list_update)

lemma tie_hist_low:
  assumes "1 \<le> t" "t \<le> 125"
  shows "cum_weight tie_hist t = 500 \<and> weighted_sum tie_hist t = 0"
proof -
  have z: "\<forall>j. 1 \<le> j \<and> j < t \<longrightarrow> unat (tie_hist ! j) = 0"
    using assms(2) by (simp add: tie_hist_nth)
  have b: "cum_weight tie_hist 1 = 500" "weighted_sum tie_hist 1 = 0"
    by (simp_all add: tie_hist_nth)
  show ?thesis using zero_bins_const [OF z assms(1)] b by simp
qed

lemma tie_hist_mid:
  assumes "126 \<le> t" "t \<le> 250"
  shows "cum_weight tie_hist t = 1500 \<and> weighted_sum tie_hist t = 125000"
proof -
  have z: "\<forall>j. 126 \<le> j \<and> j < t \<longrightarrow> unat (tie_hist ! j) = 0"
    using assms(2) by (simp add: tie_hist_nth)
  have n: "Suc 125 = 126" by simp
  have l: "cum_weight tie_hist 125 = 500" "weighted_sum tie_hist 125 = 0"
    using tie_hist_low [of 125] by simp_all
  have h: "unat (tie_hist ! 125) = 1000" by (simp add: tie_hist_nth)
  have b: "cum_weight tie_hist 126 = 1500" "weighted_sum tie_hist 126 = 125000"
    using cum_weight.simps(2) [of tie_hist 125] weighted_sum.simps(2) [of tie_hist 125]
    unfolding n l h by simp_all
  show ?thesis using zero_bins_const [OF z assms(1)] b by simp
qed

lemma tie_hist_high:
  assumes "251 \<le> t" "t \<le> 256"
  shows "cum_weight tie_hist t = 2000 \<and> weighted_sum tie_hist t = 250000"
proof -
  have z: "\<forall>j. 251 \<le> j \<and> j < t \<longrightarrow> unat (tie_hist ! j) = 0"
    using assms(2) by (simp add: tie_hist_nth)
  have n: "Suc 250 = 251" by simp
  have l: "cum_weight tie_hist 250 = 1500" "weighted_sum tie_hist 250 = 125000"
    using tie_hist_mid [of 250] by simp_all
  have h: "unat (tie_hist ! 250) = 500" by (simp add: tie_hist_nth)
  have b: "cum_weight tie_hist 251 = 2000" "weighted_sum tie_hist 251 = 250000"
    using cum_weight.simps(2) [of tie_hist 250] weighted_sum.simps(2) [of tie_hist 250]
    unfolding n l h by simp_all
  show ?thesis using zero_bins_const [OF z assms(1)] b by simp
qed

lemma tie_hist_stops: "j < 256 \<Longrightarrow> stops_at tie_hist 2000 j \<longleftrightarrow> 250 \<le> j"
proof -
  assume j: "j < 256"
  consider "j < 125" | "125 \<le> j" "j < 250" | "250 \<le> j" by linarith
  then show ?thesis
  proof cases
    case 1
    have "cum_weight tie_hist (Suc j) = 500 \<and> weighted_sum tie_hist (Suc j) = 0"
      using 1 by (intro tie_hist_low) simp_all
    then have c: "cum_weight tie_hist (Suc j) = 500" by blast
    show ?thesis unfolding stops_at_def c using 1 by simp
  next
    case 2
    have "cum_weight tie_hist (Suc j) = 1500 \<and> weighted_sum tie_hist (Suc j) = 125000"
      using 2 by (intro tie_hist_mid) simp_all
    then have c: "cum_weight tie_hist (Suc j) = 1500" by blast
    show ?thesis unfolding stops_at_def c using 2 by simp
  next
    case 3
    have "cum_weight tie_hist (Suc j) = 2000 \<and> weighted_sum tie_hist (Suc j) = 250000"
      using 3 j by (intro tie_hist_high) simp_all
    then have c: "cum_weight tie_hist (Suc j) = 2000" by blast
    show ?thesis unfolding stops_at_def c using 3 by simp
  qed
qed

lemma tie_hist_scanned: "scanned tie_hist 2000 k \<longleftrightarrow> k < 250"
proof (cases "k < 256")
  case False
  then show ?thesis by (simp add: scanned_iff)
next
  case True
  have "cum_weight tie_hist 1 \<le> cum_weight tie_hist (Suc k)"
    by (rule cum_weight_mono) simp
  moreover have "cum_weight tie_hist 1 = 500" using tie_hist_low [of 1] by simp
  ultimately have pos: "0 < cum_weight tie_hist (Suc k)" by linarith
  have "(\<forall>j \<le> k. \<not> stops_at tie_hist 2000 j) \<longleftrightarrow> k < 250"
  proof
    assume "\<forall>j \<le> k. \<not> stops_at tie_hist 2000 j"
    then have "\<not> stops_at tie_hist 2000 k" by simp
    then show "k < 250" using tie_hist_stops [OF True] by simp
  next
    assume k: "k < 250"
    show "\<forall>j \<le> k. \<not> stops_at tie_hist 2000 j"
    proof (intro allI impI)
      fix j assume "j \<le> k"
      then have "j < 256" "\<not> 250 \<le> j" using k by simp_all
      then show "\<not> stops_at tie_hist 2000 j" using tie_hist_stops [of j] by simp
    qed
  qed
  then show ?thesis unfolding scanned_iff using True pos by blast
qed

lemma variance_low: "variance 500 1500 0 250000 = 5461333333333333 / 262144"
proof -
  have "variance 500 1500 0 250000
      = fmul (fmul 500 1500) (fsq (fsub (fdiv 0 500) (fdiv 250000 1500)))"
    by (simp add: variance_def Let_def)
  also have "fdiv 0 500 = 0" by (simp add: fdiv_def fl_zero)
  finally show ?thesis by (simp only: ex_mF0 ex_d0 ex_sq0 ex_w0 ex_v0)
qed

lemma variance_high: "variance 1500 500 125000 250000 = 5461333333333335 / 262144"
proof -
  have "variance 1500 500 125000 250000
      = fmul (fmul 1500 500) (fsq (fsub (fdiv 125000 1500) (fdiv 125000 500)))"
    by (simp add: variance_def Let_def)
  then show ?thesis by (simp only: ex_mB1 ex_mF1 ex_d1 ex_sq1 ex_w1 ex_v1)
qed

lemma tie_hist_variance:
  "k < 125 \<Longrightarrow> class_variance tie_hist 2000 k = 5461333333333333 / 262144"
  "125 \<le> k \<Longrightarrow> k < 250 \<Longrightarrow> class_variance tie_hist 2000 k = 5461333333333335 / 262144"
proof -
  have all: "weighted_sum tie_hist 256 = 250000" using tie_hist_high [of 256] by simp
  show "class_variance tie_hist 2000 k = 5461333333333333 / 262144" if "k < 125"
  proof -
    have "cum_weight tie_hist (Suc k) = 500 \<and> weighted_sum tie_hist (Suc k) = 0"
      using that by (intro tie_hist_low) simp_all
    then have c: "cum_weight tie_hist (Suc k) = 500" "weighted_sum tie_hist (Suc k) = 0"
      by blast+
    show ?thesis unfolding class_variance_def all c using variance_low by simp
  qed
  show "class_variance tie_hist 2000 k = 5461333333333335 / 262144" if "125 \<le> k" "k < 250"
  proof -
    have "cum_weight tie_hist (Suc k) = 1500 \<and> weighted_sum tie_hist (Suc k) = 125000"
      using that by (intro tie_hist_mid) simp_all
    then have c: "cum_weight tie_hist (Suc k) = 1500" "weighted_sum tie_hist (Suc k) = 125000"
      by blast+
    show ?thesis unfolding class_variance_def all c using variance_high by simp
  qed
qed

lemma tie_hist_threshold: "otsu_threshold tie_hist 2000 = 125"
proof -
  define T where "T = otsu_threshold tie_hist 2000"
  have s0: "scanned tie_hist 2000 0" by (simp add: tie_hist_scanned)
  have "0 < class_variance tie_hist 2000 0" by (simp add: tie_hist_variance(1))
  then have ex: "\<exists>k. scanned tie_hist 2000 k \<and> 0 < class_variance tie_hist 2000 k"
    using s0 by blast
  have T: "scanned tie_hist 2000 T"
    "\<forall>k. scanned tie_hist 2000 k \<longrightarrow> class_variance tie_hist 2000 k \<le> class_variance tie_hist 2000 T"
    "\<forall>k < T. scanned tie_hist 2000 k \<longrightarrow> class_variance tie_hist 2000 k < class_variance tie_hist 2000 T"
    using otsu_threshold_cases(1) [of tie_hist 2000] ex unfolding T_def by blast+
  have T250: "T < 250" using T(1) by (simp add: tie_hist_scanned)
  have s125: "scanned tie_hist 2000 125" by (simp add: tie_hist_scanned)
  have v125: "class_variance tie_hist 2000 125 = 5461333333333335 / 262144"
    by (rule tie_hist_variance(2)) simp_all
  have "\<not> T < 125"
  proof
    assume "T < 125"
    then have "class_variance tie_hist 2000 T = 5461333333333333 / 262144"
      by (rule tie_hist_variance(1))
    moreover have "class_variance tie_hist 2000 125 \<le> class_variance tie_hist 2000 T"
      using T(2) s125 by blast
    ultimately show False using v125 by simp
  qed
  moreover have "\<not> 125 < T"
  proof
    assume a: "125 < T"
    then have "class_variance tie_hist 2000 T = 5461333333333335 / 262144"
      using T250 by (intro tie_hist_variance(2)) simp_all
    moreover have "class_variance tie_hist 2000 125 < class_variance tie_hist 2000 T"
      using T(3) s125 a by blast
    ultimately show False using v125 by simp
  qed
  ultimately have "T = 125" by simp
  then show ?thesis by (simp add: T_def)
qed

lemma tie_hist_spec_variance:
  "spec_variance tie_hist 2000 0 = spec_variance tie_hist 2000 125"
proof -
  have all: "weighted_sum tie_hist 256 = 250000" using tie_hist_high [of 256] by simp
  have "cum_weight tie_hist (Suc 0) = 500 \<and> weighted_sum tie_hist (Suc 0) = 0"
    by (rule tie_hist_low) simp_all
  then have a: "cum_weight tie_hist (Suc 0) = 500" "weighted_sum tie_hist (Suc 0) = 0"
    by blast+
  have "cum_weight tie_hist (Suc 125) = 1500 \<and> weighted_sum tie_hist (Suc 125) = 125000"
    by (rule tie_hist_mid) simp_all
  then have b: "cum_weight tie_hist (Suc 125) = 1500" "weighted_sum tie_hist (Suc 125) = 125000"
    by blast+
  show ?thesis unfolding spec_variance_def Let_def all a b by (simp add: power2_eq_square)
qed

text \<open>
  Claim C3 as stated, with the variance in exact arithmetic: in \<open>tie_hist\<close> the
  candidates 0 and 125 are scanned and have the same exact variance, so the smallest
  candidate of largest exact variance is not above 0; the loop returns 125, whose
  binary64 variance is larger by two units in the last place.
\<close>

theorem otsu_exact_tie_counterexample:
  "length tie_hist = 256
   \<and> 2000 = cum_weight tie_hist 256
   \<and> scanned tie_hist 2000 0
   \<and> spec_variance tie_hist 2000 0 = spec_variance tie_hist 2000 125
   \<and> otsu_threshold tie_hist 2000 = 125"
proof -
  have l: "length tie_hist = 256" by (simp add: tie_hist_def)
  have c: "2000 = cum_weight tie_hist 256" using tie_hist_high [of 256] by simp
  have s: "scanned tie_hist 2000 0" by (simp add: tie_hist_scanned)
  show ?thesis using l c s tie_hist_spec_variance tie_hist_threshold by blast
qed

section \<open>The binary64 gray value against the exactly rounded one\<close>

lemma fl_abs_error:
  assumes "0 \<le> x" "x < 2 powi k"
  shows "\<bar>fl x - x\<bar> \<le> 2 powi (k - 54)"
proof (cases "x = 0")
  case True
  then show ?thesis by (simp add: fl_zero)
next
  case False
  then have x0: "0 < x" using assms(1) by simp
  have "2 powi (ilog2 x) \<le> x" using ilog2_bounds [OF x0] by simp
  then have lt: "(2::rat) powi (ilog2 x) < 2 powi k" using assms(2) by linarith
  have "ilog2 x < k"
  proof (rule ccontr)
    assume "\<not> ilog2 x < k"
    then have "k \<le> ilog2 x" by simp
    then have "(2::rat) powi k \<le> 2 powi (ilog2 x)" by (intro power_int_increasing) simp_all
    then show False using lt by linarith
  qed
  then have "ilog2 x - 52 \<le> k - 53" by simp
  then have "(2::rat) powi (ilog2 x - 52) \<le> 2 powi (k - 53)"
    by (intro power_int_increasing) simp_all
  moreover have "(2::rat) powi (k - 53) = 2 * 2 powi (k - 54)"
  proof -
    have "k - 53 = (k - 54) + 1" by simp
    then have "(2::rat) powi (k - 53) = 2 powi ((k - 54) + 1)" by simp
    also have "\<dots> = 2 powi (k - 54) * 2" by (subst power_int_add) simp_all
    finally show ?thesis by simp
  qed
  ultimately have "(2::rat) powi (ilog2 x - 52) / 2 \<le> 2 powi (k - 54)" by simp
  then show ?thesis using fl_error [OF x0] by linarith
qed

lemma fmul_const_error:
  assumes "\<bar>c - q\<bar> \<le> d" "0 \<le> c" "0 \<le> r" "r \<le> 255" "c * 255 < 2 powi k"
  shows "\<bar>fmul c r - q * r\<bar> \<le> 2 powi (k - 54) + 255 * d"
proof -
  have "c * r \<le> c * 255" using assms(2,4) by (intro mult_left_mono) simp_all
  then have lt: "c * r < 2 powi k" using assms(5) by linarith
  have nn: "0 \<le> c * r" using assms(2,3) by simp
  have e1: "\<bar>fl (c * r) - c * r\<bar> \<le> 2 powi (k - 54)" by (rule fl_abs_error [OF nn lt])
  have d0: "0 \<le> d" using assms(1) by linarith
  have "\<bar>c * r - q * r\<bar> = \<bar>c - q\<bar> * r" using assms(3) by (simp add: abs_mult left_diff_distrib [symmetric])
  also have "\<dots> \<le> d * 255" using assms(1,3,4) d0 by (intro mult_mono) simp_all
  finally have e2: "\<bar>c * r - q * r\<bar> \<le> 255 * d" by simp
  show ?thesis unfolding fmul_def using e1 e2 by linarith
qed

lemma fadd_error:
  assumes "\<bar>x - X\<bar> \<le> dx" "\<bar>y - Y\<bar> \<le> dy" "0 \<le> x" "0 \<le> y" "x + y < 2 powi k"
  shows "\<bar>fadd x y - (X + Y)\<bar> \<le> 2 powi (k - 54) + dx + dy"
proof -
  have nn: "0 \<le> x + y" using assms(3,4) by simp
  have e1: "\<bar>fl (x + y) - (x + y)\<bar> \<le> 2 powi (k - 54)" by (rule fl_abs_error [OF nn assms(5)])
  show ?thesis unfolding fadd_def using e1 assms(1,2) by linarith
qed

lemma luma_consts_error:
  "\<bar>fl (299 / 1000) - 299 / 1000\<bar> \<le> 2 powi (- 55)"
  "\<bar>fl (587 / 1000) - 587 / 1000\<bar> \<le> 2 powi (- 54)"
  "\<bar>fl (114 / 1000) - 114 / 1000\<bar> \<le> 2 powi (- 57)"
proof -
  have "\<bar>fl (299 / 1000) - 299 / 1000\<bar> \<le> 2 powi (- 1 - 54)"
    by (rule fl_abs_error) (simp_all add: power_int_minus)
  then show "\<bar>fl (299 / 1000) - 299 / 1000\<bar> \<le> 2 powi (- 55)" by simp
  have "\<bar>fl (587 / 1000) - 587 / 1000\<bar> \<le> 2 powi (0 - 54)"
    by (rule fl_abs_error) simp_all
  then show "\<bar>fl (587 / 1000) - 587 / 1000\<bar> \<le> 2 powi (- 54)" by simp
  have "\<bar>fl (114 / 1000) - 114 / 1000\<bar> \<le> 2 powi (- 3 - 54)"
    by (rule fl_abs_error) (simp_all add: power_int_minus)
  then show "\<bar>fl (114 / 1000) - 114 / 1000\<bar> \<le> 2 powi (- 57)" by simp
qed

lemma luma_sum_error:
  fixes R G B :: rat
  assumes "0 \<le> R" "R \<le> 255" "0 \<le> G" "G \<le> 255" "0 \<le> B" "B \<le> 255"
  shows "\<bar>fadd (fadd (fmul (fl (299 / 1000)) R) (fmul (fl (587 / 1000)) G))
               (fmul (fl (114 / 1000)) B)
          - (299 / 1000 * R + 587 / 1000 * G + 114 / 1000 * B)\<bar> < 1 / 2000"
proof -
  define c1 :: rat where "c1 = fl (299 / 1000)"
  define c2 :: rat where "c2 = fl (587 / 1000)"
  define c3 :: rat where "c3 = fl (114 / 1000)"
  define e :: rat where "e = 1 / 10000000000000"
  have k: "\<bar>c1 - 299 / 1000\<bar> \<le> 2 powi (- 55)" "\<bar>c2 - 587 / 1000\<bar> \<le> 2 powi (- 54)"
    "\<bar>c3 - 114 / 1000\<bar> \<le> 2 powi (- 57)"
    using luma_consts_error unfolding c1_def c2_def c3_def by simp_all
  have small: "(2::rat) powi (- 55) \<le> e" "(2::rat) powi (- 54) \<le> e" "(2::rat) powi (- 57) \<le> e"
    "(2::rat) powi (7 - 54) + 255 * 2 powi (- 55) \<le> e"
    "(2::rat) powi (8 - 54) + 255 * 2 powi (- 54) \<le> e"
    "(2::rat) powi (5 - 54) + 255 * 2 powi (- 57) \<le> e"
    "(2::rat) powi (9 - 54) \<le> e"
    by (simp_all add: e_def power_int_minus)
  have pw: "(2::rat) powi 7 = 128" "(2::rat) powi 8 = 256" "(2::rat) powi 5 = 32"
    "(2::rat) powi 9 = 512"
    by simp_all
  have e_val: "e = 1 / 10000000000000" by (rule e_def)
  have c0: "0 \<le> c1" "0 \<le> c2" "0 \<le> c3"
    using fl_consts_pos by (simp_all add: c1_def c2_def c3_def)
  have cu: "c1 \<le> 3 / 10" "c2 \<le> 6 / 10" "c3 \<le> 12 / 100"
    using k small(1,2,3) e_val by linarith+
  have u1: "c1 * 255 < 2 powi 7" unfolding pw using cu(1) by linarith
  have u2: "c2 * 255 < 2 powi 8" unfolding pw using cu(2) by linarith
  have u3: "c3 * 255 < 2 powi 5" unfolding pw using cu(3) by linarith
  define a where "a = fmul c1 R"
  define b where "b = fmul c2 G"
  define c where "c = fmul c3 B"
  have ea: "\<bar>a - 299 / 1000 * R\<bar> \<le> 2 powi (7 - 54) + 255 * 2 powi (- 55)"
    unfolding a_def by (rule fmul_const_error [OF k(1) c0(1) assms(1,2) u1])
  have eb: "\<bar>b - 587 / 1000 * G\<bar> \<le> 2 powi (8 - 54) + 255 * 2 powi (- 54)"
    unfolding b_def by (rule fmul_const_error [OF k(2) c0(2) assms(3,4) u2])
  have ec: "\<bar>c - 114 / 1000 * B\<bar> \<le> 2 powi (5 - 54) + 255 * 2 powi (- 57)"
    unfolding c_def by (rule fmul_const_error [OF k(3) c0(3) assms(5,6) u3])
  have ea': "\<bar>a - 299 / 1000 * R\<bar> \<le> e" using ea small(4) by linarith
  have eb': "\<bar>b - 587 / 1000 * G\<bar> \<le> e" using eb small(5) by linarith
  have ec': "\<bar>c - 114 / 1000 * B\<bar> \<le> e" using ec small(6) by linarith
  have a0: "0 \<le> a" unfolding a_def fmul_def using c0(1) assms(1) by (intro fl_nonneg) simp
  have b0: "0 \<le> b" unfolding b_def fmul_def using c0(2) assms(3) by (intro fl_nonneg) simp
  have c0': "0 \<le> c" unfolding c_def fmul_def using c0(3) assms(5) by (intro fl_nonneg) simp
  have ab: "a + b < 2 powi 9" unfolding pw using ea' eb' assms e_val by linarith
  define s where "s = fadd a b"
  have es: "\<bar>s - (299 / 1000 * R + 587 / 1000 * G)\<bar> \<le> 2 powi (9 - 54) + e + e"
    unfolding s_def by (rule fadd_error [OF ea' eb' a0 b0 ab])
  have es': "\<bar>s - (299 / 1000 * R + 587 / 1000 * G)\<bar> \<le> 3 * e" using es small(7) by linarith
  have s0: "0 \<le> s" unfolding s_def fadd_def using a0 b0 by (intro fl_nonneg) simp
  have sc: "s + c < 2 powi 9" unfolding pw using es' ec' assms e_val by linarith
  have et: "\<bar>fadd s c - (299 / 1000 * R + 587 / 1000 * G + 114 / 1000 * B)\<bar>
      \<le> 2 powi (9 - 54) + 3 * e + e"
    by (rule fadd_error [OF es' ec' s0 c0' sc])
  have "\<bar>fadd s c - (299 / 1000 * R + 587 / 1000 * G + 114 / 1000 * B)\<bar> < 1 / 2000"
    using et small(7) e_val by linarith
  then show ?thesis by (simp only: s_def a_def b_def c_def c1_def c2_def c3_def)
qed

lemma luma_vs_exact:
  fixes r g b :: byte
  defines "M \<equiv> 299 * unat r + 587 * unat g + 114 * unat b + 500"
  shows "spec_luma r g b = int (M div 1000)"
    and "luma r g b = spec_luma r g b \<or> luma r g b = spec_luma r g b - 1"
    and "M mod 1000 \<noteq> 0 \<Longrightarrow> luma r g b = spec_luma r g b"
proof -
  define R :: rat where "R = of_nat (unat r)"
  define G :: rat where "G = of_nat (unat g)"
  define B :: rat where "B = of_nat (unat b)"
  define E :: rat where "E = 299 / 1000 * R + 587 / 1000 * G + 114 / 1000 * B"
  define S :: rat where "S = fadd (fadd (fmul (fl (299 / 1000)) R) (fmul (fl (587 / 1000)) G))
      (fmul (fl (114 / 1000)) B)"
  define q where "q = M div 1000"
  define \<rho> where "\<rho> = M mod 1000"
  have rb: "0 \<le> R" "R \<le> 255" "0 \<le> G" "G \<le> 255" "0 \<le> B" "B \<le> 255"
    unfolding R_def G_def B_def using rat_of_byte_bounds by blast+
  have err: "\<bar>S - E\<bar> < 1 / 2000"
    unfolding S_def E_def by (rule luma_sum_error [OF rb])
  have M: "M = 1000 * q + \<rho>" and \<rho>: "\<rho> < 1000"
    by (simp_all add: q_def \<rho>_def)
  have "rat_of_nat M = 1000 * (E + 1 / 2)"
    by (simp add: M_def E_def R_def G_def B_def)
  then have "1000 * (E + 1 / 2) = 1000 * rat_of_nat q + rat_of_nat \<rho>"
    unfolding M by simp
  then have Eq: "E + 1 / 2 = rat_of_nat q + rat_of_nat \<rho> / 1000" by simp
  have \<rho>1: "rat_of_nat \<rho> \<le> 999"
  proof -
    have "\<rho> \<le> 999" using \<rho> by simp
    then have "rat_of_nat \<rho> \<le> rat_of_nat 999" by (simp only: of_nat_le_iff)
    then show ?thesis by simp
  qed
  have \<rho>0: "0 \<le> rat_of_nat \<rho>" by simp
  have lum: "luma r g b = \<lfloor>S + 1 / 2\<rfloor>"
    by (simp only: luma_def js_round_def S_def R_def G_def B_def)
  have sp: "spec_luma r g b = \<lfloor>E + 1 / 2\<rfloor>"
    by (simp only: spec_luma_def E_def R_def G_def B_def)
  have fE: "\<lfloor>E + 1 / 2\<rfloor> = int q"
  proof (rule floor_unique)
    show "rat_of_int (int q) \<le> E + 1 / 2" unfolding Eq using \<rho>0 by simp
    show "E + 1 / 2 < rat_of_int (int q) + 1" unfolding Eq using \<rho>1 by simp
  qed
  show "spec_luma r g b = int (M div 1000)" using sp fE by (simp add: q_def)
  have lo: "rat_of_int (int q - 1) \<le> S + 1 / 2"
  proof -
    have "rat_of_int (int q - 1) = rat_of_nat q - 1" by simp
    then show ?thesis using err Eq \<rho>0 by linarith
  qed
  have hi: "S + 1 / 2 < rat_of_int (int q) + 1"
  proof -
    have "rat_of_int (int q) = rat_of_nat q" by simp
    then show ?thesis using err Eq \<rho>1 by linarith
  qed
  have range: "int q - 1 \<le> \<lfloor>S + 1 / 2\<rfloor>" "\<lfloor>S + 1 / 2\<rfloor> < int q + 1"
  proof -
    show "int q - 1 \<le> \<lfloor>S + 1 / 2\<rfloor>" using lo by (simp only: le_floor_iff)
    have "S + 1 / 2 < rat_of_int (int q + 1)" using hi by simp
    then show "\<lfloor>S + 1 / 2\<rfloor> < int q + 1" by (simp only: floor_less_iff)
  qed
  show "luma r g b = spec_luma r g b \<or> luma r g b = spec_luma r g b - 1"
    unfolding lum sp fE using range by linarith
  show "luma r g b = spec_luma r g b" if "M mod 1000 \<noteq> 0"
  proof -
    have "1 \<le> \<rho>" using that by (simp add: \<rho>_def)
    then have "rat_of_nat 1 \<le> rat_of_nat \<rho>" by (simp only: of_nat_le_iff)
    then have \<rho>2: "1 \<le> rat_of_nat \<rho>" by simp
    have "rat_of_int (int q) = rat_of_nat q" by simp
    then have "rat_of_int (int q) \<le> S + 1 / 2" using err Eq \<rho>2 by linarith
    then have "int q \<le> \<lfloor>S + 1 / 2\<rfloor>" by (simp only: le_floor_iff)
    then show ?thesis unfolding lum sp fE using range(2) by linarith
  qed
qed

lemma spec_luma_tie: "spec_luma 0 36 12 = 23"
  by (simp add: luma_vs_exact(1))

section \<open>Claim about the luminance pass\<close>

text \<open>
  Claim C6. The luminance pass replaces each pixel by the pixel whose three colour
  channels hold \<open>g\<close> and whose alpha is unchanged, where \<open>g\<close> is \<^verbatim>\<open>Math.round\<close> of the
  binary64 value of \<open>(0.299 * R + 0.587 * G) + 0.114 * B\<close>. It lies in \<open>0..255\<close>, and
  it is the exactly rounded value \<open>round (0.299 * R + 0.587 * G + 0.114 * B)\<close> unless
  \<open>299 * R + 587 * G + 114 * B + 500\<close> is a multiple of 1000 (the exact sum is a tie);
  then it is that value or one less. The pass increments bin \<open>g\<close> of the histogram by
  one. For a buffer of fewer than \<open>2 ^ 32\<close> pixels (no canvas is larger) bin \<open>k\<close>
  counts the pixels of gray value \<open>k\<close>, and the 256 bins sum to the number of pixels.
\<close>

theorem grayscale_pass_spec:
  "fst (grayscale_pass ps (replicate 256 0))
     = map (\<lambda>p. RGBA (word_of_int (gray_of p)) (word_of_int (gray_of p))
                      (word_of_int (gray_of p)) (alpha p)) ps
   \<and> (\<forall>p. gray_of p
            = js_round (fadd (fadd (fmul (fl (299 / 1000)) (of_nat (unat (red p))))
                                   (fmul (fl (587 / 1000)) (of_nat (unat (green p)))))
                             (fmul (fl (114 / 1000)) (of_nat (unat (blue p)))))
          \<and> 0 \<le> gray_of p \<and> gray_of p \<le> 255
          \<and> (gray_of p = spec_luma (red p) (green p) (blue p)
               \<or> gray_of p = spec_luma (red p) (green p) (blue p) - 1)
          \<and> ((299 * unat (red p) + 587 * unat (green p) + 114 * unat (blue p) + 500) mod 1000
                 \<noteq> 0 \<longrightarrow> gray_of p = spec_luma (red p) (green p) (blue p)))
   \<and> snd (grayscale_pass ps (replicate 256 0))
        = foldl hist_incr (replicate 256 0) (map gray_of ps)
   \<and> (\<forall>h p. length h = 256 \<longrightarrow>
         hist_incr h (gray_of p) = h[nat (gray_of p) := h ! nat (gray_of p) + 1])
   \<and> (length ps < 2 ^ 32 \<longrightarrow>
         (\<forall>k < 256. unat (snd (grayscale_pass ps (replicate 256 0)) ! k)
                      = length (filter (\<lambda>p. gray_of p = int k) ps))
         \<and> sum_list (map unat (snd (grayscale_pass ps (replicate 256 0)))) = length ps)"
proof -
  have inc: "\<And>h p. length h = 256 \<Longrightarrow>
      hist_incr h (gray_of p) = h[nat (gray_of p) := h ! nat (gray_of p) + 1]"
  proof -
    fix h :: histogram and p
    assume "length h = 256"
    then show "hist_incr h (gray_of p) = h[nat (gray_of p) := h ! nat (gray_of p) + 1]"
      using gray_of_range [of p] by (simp add: hist_incr_def nat_less_iff)
  qed
  have formula: "\<And>p. gray_of p
      = js_round (fadd (fadd (fmul (fl (299 / 1000)) (of_nat (unat (red p))))
                             (fmul (fl (587 / 1000)) (of_nat (unat (green p)))))
                       (fmul (fl (114 / 1000)) (of_nat (unat (blue p)))))"
    by (simp only: gray_of_def luma_def)
  have near: "\<And>p. gray_of p = spec_luma (red p) (green p) (blue p)
      \<or> gray_of p = spec_luma (red p) (green p) (blue p) - 1"
    unfolding gray_of_def by (rule luma_vs_exact(2))
  have exact: "\<And>p. (299 * unat (red p) + 587 * unat (green p) + 114 * unat (blue p) + 500)
      mod 1000 \<noteq> 0 \<Longrightarrow> gray_of p = spec_luma (red p) (green p) (blue p)"
    unfolding gray_of_def by (rule luma_vs_exact(3))
  have pix: "fst (grayscale_pass ps (replicate 256 0))
     = map (\<lambda>p. RGBA (word_of_int (gray_of p)) (word_of_int (gray_of p))
                      (word_of_int (gray_of p)) (alpha p)) ps"
    by (simp add: grayscale_pass_eq spec_gray_pixel_def [abs_def])
  have hs: "snd (grayscale_pass ps (replicate 256 0))
      = foldl hist_incr (replicate 256 0) (map gray_of ps)"
    by (simp add: grayscale_pass_eq)
  have bins: "length ps < 2 ^ 32 \<Longrightarrow>
      (\<forall>k < 256. unat (snd (grayscale_pass ps (replicate 256 0)) ! k)
                      = length (filter (\<lambda>p. gray_of p = int k) ps))
      \<and> sum_list (map unat (snd (grayscale_pass ps (replicate 256 0)))) = length ps"
    unfolding hs using hist_bin_count [of ps] hist_sum_total [of ps] by blast
  show ?thesis
    using pix formula gray_of_range near exact hs inc bins by blast
qed

theorem grayscale_pass_spec_witness:
  "length [RGBA 0 36 12 9, RGBA 255 255 255 0] < (2::nat) ^ 32
   \<and> fst (grayscale_pass [RGBA 0 36 12 9, RGBA 255 255 255 0] (replicate 256 0))
        = [RGBA 22 22 22 9, RGBA 255 255 255 0]
   \<and> sum_list (map unat (snd (grayscale_pass [RGBA 0 36 12 9, RGBA 255 255 255 0]
        (replicate 256 0)))) = 2"
proof -
  let ?ps = "[RGBA 0 36 12 9, RGBA 255 255 255 0]"
  have h: "length ?ps < (2::nat) ^ 32" by simp
  have l: "length ?ps = 2" by simp
  have g: "gray_of (RGBA 0 36 12 9) = 22" "gray_of (RGBA 255 255 255 0) = 255"
    by (simp_all add: gray_of_def luma_tie_example luma_255)
  note spec = grayscale_pass_spec [of ?ps]
  from spec have "fst (grayscale_pass ?ps (replicate 256 0))
     = map (\<lambda>p. RGBA (word_of_int (gray_of p)) (word_of_int (gray_of p))
                      (word_of_int (gray_of p)) (alpha p)) ?ps"
    by blast
  then have f: "fst (grayscale_pass ?ps (replicate 256 0)) = [RGBA 22 22 22 9, RGBA 255 255 255 0]"
    by (simp add: g)
  from spec h have "sum_list (map unat (snd (grayscale_pass ?ps (replicate 256 0)))) = length ?ps"
    by blast
  then have s: "sum_list (map unat (snd (grayscale_pass ?ps (replicate 256 0)))) = 2"
    unfolding l .
  show ?thesis using h f s by blast
qed

text \<open>
  Claim C6 as stated, with the formula in exact arithmetic: for R = 0, G = 36, B = 12
  the exact sum is 22.5 and rounds to 23; the pass writes 22.
\<close>

theorem grayscale_tie_counterexample:
  "fst (grayscale_pass [RGBA 0 36 12 9] (replicate 256 0)) = [RGBA 22 22 22 9]
   \<and> spec_luma 0 36 12 = 23"
proof -
  have g: "gray_of (RGBA 0 36 12 9) = 22" by (simp add: gray_of_def luma_tie_example)
  have "fst (grayscale_pass [RGBA 0 36 12 9] (replicate 256 0)) = [RGBA 22 22 22 9]"
    by (simp add: grayscale_pass_eq spec_gray_pixel_def g)
  then show ?thesis using spec_luma_tie by blast
qed

end
